theory Spec2Isabelle
  imports Main "HOL-Library.Multiset" "HOL-Library.Sublist"
begin

section \<open>The Countdown numbers solver\<close>

text \<open>
  A shallow embedding of \<^verbatim>\<open>countdown_solver.py\<close>. Python integers are \<^typ>\<open>int\<close>,
  tuples of numbers are \<^typ>\<open>int list\<close>, generators are the lists of what they yield,
  and the dictionary \<^verbatim>\<open>all_groups\<close> is an association list in insertion order
  (the order in which \<^verbatim>\<open>walk\<close> visits its values). An exception is a value of
  type \<open>error\<close>.
\<close>

datatype error = KeyError | TypeError

subsection \<open>Library functions of Python used by the program\<close>

text \<open>\<^verbatim>\<open>itertools.combinations(xs, m)\<close>: the sub-tuples of length \<open>m\<close> in lexicographic
  order of the chosen positions.\<close>

fun combinations :: "'a list \<Rightarrow> nat \<Rightarrow> 'a list list" where
  "combinations xs 0 = [[]]"
| "combinations [] (Suc m) = []"
| "combinations (x # xs) (Suc m) = map ((#) x) (combinations xs m) @ combinations xs (Suc m)"

text \<open>\<^verbatim>\<open>itertools.zip_longest\<close> with the fill value \<^verbatim>\<open>None\<close>.\<close>

fun zip_longest :: "'a list \<Rightarrow> 'b list \<Rightarrow> ('a option \<times> 'b option) list" where
  "zip_longest [] [] = []"
| "zip_longest (x # xs) [] = (Some x, None) # zip_longest xs []"
| "zip_longest [] (y # ys) = (None, Some y) # zip_longest [] ys"
| "zip_longest (x # xs) (y # ys) = (Some x, Some y) # zip_longest xs ys"

text \<open>\<^verbatim>\<open>f"{n}"\<close>: the decimal literal of an integer.\<close>

definition digit_char :: "nat \<Rightarrow> char" where
  "digit_char d = ''0123456789'' ! d"

function str_nat :: "nat \<Rightarrow> string" where
  "str_nat n = (if n < 10 then [digit_char n] else str_nat (n div 10) @ [digit_char (n mod 10)])"
  by pat_completeness auto
termination
  by (relation "measure id") auto

declare str_nat.simps [simp del]

definition str_int :: "int \<Rightarrow> string" where
  "str_int n = (if n < 0 then ''-'' @ str_nat (nat (- n)) else str_nat (nat n))"

subsection \<open>Calculation\<close>

record calculation =
  expr :: string
  result :: int
  is_singleton :: bool

definition singleton :: "int \<Rightarrow> calculation" where
  "singleton n = \<lparr>expr = str_int n, result = n, is_singleton = True\<rparr>"

text \<open>\<^verbatim>\<open>Calculation.operations\<close>: the generator's yields, in order.\<close>

definition operations :: "int \<Rightarrow> int \<Rightarrow> (int \<times> string) list" where
  "operations x y =
     [(x + y, ''+'')]
     @ (if x > y then [(x - y, ''-'')] else [])
     @ (if y > 1 \<and> x > 1 then [(x * y, ''x'')] else [])
     @ (if y > 1 \<and> x mod y = 0 then [(x div y, ''/'')] else [])"

definition paren :: "calculation \<Rightarrow> string" where
  "paren c = (if is_singleton c then expr c else ''('' @ expr c @ '')'')"

text \<open>\<^verbatim>\<open>Calculation.generate\<close>: the two calculations are swapped when the first result
  is strictly smaller; every yield of \<open>operations\<close> becomes a Calculation.\<close>

definition generate :: "calculation \<Rightarrow> calculation \<Rightarrow> calculation list" where
  "generate calca calcb =
     (let hi = (if result calca < result calcb then calcb else calca);
          lo = (if result calca < result calcb then calca else calcb)
      in map (\<lambda>(res, op).
                \<lparr>expr = paren hi @ '' '' @ op @ '' '' @ paren lo,
                 result = res, is_singleton = False\<rparr>)
             (operations (result hi) (result lo)))"

subsection \<open>Group\<close>

datatype group = Group
  (group_numbers: "int list")
  (group_size: nat)
  (partitions: "(group \<times> group) list")
  (calculations: "calculation list")

type_synonym index = "(int list \<times> group) list"

text \<open>\<^verbatim>\<open>all_groups[k]\<close> raises \<^verbatim>\<open>KeyError\<close> on a missing key.\<close>

definition lookup :: "index \<Rightarrow> int list \<Rightarrow> error + group" where
  "lookup all_groups k = (case map_of all_groups k of None \<Rightarrow> Inl KeyError | Some g \<Rightarrow> Inr g)"

text \<open>\<^verbatim>\<open>Group.filtering\<close>: \<open>k\<close> is the head of the remaining elements; once they are
  exhausted \<open>k\<close> is \<^verbatim>\<open>None\<close>, which no number equals.\<close>

fun filtering :: "int list \<Rightarrow> int list \<Rightarrow> int list" where
  "filtering [] elements = []"
| "filtering (n # iterable) [] = n # filtering iterable []"
| "filtering (n # iterable) (k # elems) =
     (if n = k then filtering iterable elems else n # filtering iterable (k # elems))"

text \<open>\<^verbatim>\<open>Group.halfbinom\<close>: the loop over
  \<^verbatim>\<open>zip(reversed(range(n+1-k, n+1)), range(1, k+1))\<close>; \<^verbatim>\<open>//\<close> is floor division.\<close>

definition halfbinom_loop :: "int \<Rightarrow> int \<Rightarrow> int" where
  "halfbinom_loop n k =
     fold (\<lambda>(m, l) prod. (prod * m) div l) (zip (rev [n + 1 - k..n]) [1..k]) 1"

definition halfbinom :: "int \<Rightarrow> int \<Rightarrow> int option" where
  "halfbinom n k = (if n mod 2 = 1 then None else Some (halfbinom_loop n k div 2))"

text \<open>The decorator \<^verbatim>\<open>@lru_cache()\<close> on \<^verbatim>\<open>halfbinom\<close>: a memo of at most 128 entries
  (the default \<^verbatim>\<open>maxsize\<close>), most recently used first. A call whose arguments are in
  the memo returns the stored value and moves the entry to the front; any other call
  runs the body, stores the result and drops the least recently used entry beyond the
  size. The third component tells whether the body was run. The memo changes no
  returned value, so the construction of the index calls the body directly.\<close>

type_synonym memo = "((int \<times> int) \<times> int option) list"

definition lru_maxsize :: nat where
  "lru_maxsize = 128"

definition halfbinom_cached :: "memo \<Rightarrow> int \<Rightarrow> int \<Rightarrow> int option \<times> memo \<times> bool" where
  "halfbinom_cached cache n k =
     (case map_of cache (n, k) of
        Some r \<Rightarrow> (r, ((n, k), r) # filter (\<lambda>(key, r'). key \<noteq> (n, k)) cache, False)
      | None \<Rightarrow>
          (let r = halfbinom n k in (r, take lru_maxsize (((n, k), r) # cache), True)))"

text \<open>A run of calls from a given memo: the value and the flag of every call.\<close>

fun halfbinom_calls :: "memo \<Rightarrow> (int \<times> int) list \<Rightarrow> (int option \<times> bool) list" where
  "halfbinom_calls cache [] = []"
| "halfbinom_calls cache ((n, k) # calls) =
     (case halfbinom_cached cache n k of
        (r, cache', computed) \<Rightarrow> (r, computed) # halfbinom_calls cache' calls)"

text \<open>The \<^verbatim>\<open>enumerate(..., 1)\<close> loop of \<^verbatim>\<open>paired_combinations\<close>: every item is
  yielded, and the loop returns after the item whose count equals the limit.\<close>

fun enumerate_until :: "int option \<Rightarrow> int \<Rightarrow> 'a list \<Rightarrow> 'a list" where
  "enumerate_until limit cnt [] = []"
| "enumerate_until limit cnt (x # xs) =
     x # (if Some cnt = limit then [] else enumerate_until limit (cnt + 1) xs)"

definition paired_combinations ::
  "int list \<Rightarrow> nat \<Rightarrow> int option \<Rightarrow> (int list \<times> int list) list" where
  "paired_combinations numbers m limit =
     map (\<lambda>numbers1. (numbers1, filtering numbers numbers1))
         (enumerate_until limit 1 (combinations numbers m))"

text \<open>The outer loop of \<^verbatim>\<open>partition_into_unique_pairs\<close> over
  \<^verbatim>\<open>zip_longest(range((size+1)//2, size), limits)\<close> (a \<^verbatim>\<open>range(a, b)\<close> of sizes is
  \<open>[a..<b]\<close>): a missing \<open>m\<close> makes
  \<^verbatim>\<open>combinations\<close> raise \<^verbatim>\<open>TypeError\<close>; a missing limit is \<^verbatim>\<open>None\<close>, as is the limit
  for an odd size.\<close>

fun all_paired_combinations ::
  "int list \<Rightarrow> (nat option \<times> int option option) list \<Rightarrow> error + (int list \<times> int list) list" where
  "all_paired_combinations numbers [] = Inr []"
| "all_paired_combinations numbers ((None, limit) # rest) = Inl TypeError"
| "all_paired_combinations numbers ((Some m, limit) # rest) =
     (case all_paired_combinations numbers rest of
        Inl e \<Rightarrow> Inl e
      | Inr ps \<Rightarrow> Inr (paired_combinations numbers m (case limit of None \<Rightarrow> None | Some l \<Rightarrow> l) @ ps))"

text \<open>The body of the loops: a pair whose first side was seen is skipped, the others
  are resolved in the index.\<close>

fun unique_pairs ::
  "index \<Rightarrow> int list set \<Rightarrow> (int list \<times> int list) list \<Rightarrow> error + (group \<times> group) list" where
  "unique_pairs all_groups unique_numbers [] = Inr []"
| "unique_pairs all_groups unique_numbers ((numbers1, numbers2) # rest) =
     (if numbers1 \<in> unique_numbers then unique_pairs all_groups unique_numbers rest
      else case lookup all_groups numbers1 of
        Inl e \<Rightarrow> Inl e
      | Inr group1 \<Rightarrow>
         (case lookup all_groups numbers2 of
            Inl e \<Rightarrow> Inl e
          | Inr group2 \<Rightarrow>
             (case unique_pairs all_groups (insert numbers1 unique_numbers) rest of
                Inl e \<Rightarrow> Inl e
              | Inr ps \<Rightarrow> Inr ((group1, group2) # ps))))"

definition partition_into_unique_pairs :: "int list \<Rightarrow> index \<Rightarrow> error + (group \<times> group) list" where
  "partition_into_unique_pairs numbers all_groups =
     (let size = length numbers in
      if size = 1 then Inr []
      else
        let limits = [halfbinom (int size) (int size div 2)] in
        case all_paired_combinations numbers (zip_longest [(size + 1) div 2..<size] limits) of
          Inl e \<Rightarrow> Inl e
        | Inr candidates \<Rightarrow> unique_pairs all_groups {} candidates)"

definition perform_calculations :: "int list \<Rightarrow> (group \<times> group) list \<Rightarrow> calculation list" where
  "perform_calculations numbers parts =
     (if length numbers = 1 then [singleton (hd numbers)]
      else concat (map (\<lambda>(group1, group2).
                      concat (map (\<lambda>(calc1, calc2). generate calc1 calc2)
                                  (List.product (calculations group1) (calculations group2))))
                   parts))"

text \<open>\<^verbatim>\<open>Group.__init__\<close>\<close>

definition Group_init :: "int list \<Rightarrow> index \<Rightarrow> error + group" where
  "Group_init numbers all_groups =
     (case partition_into_unique_pairs numbers all_groups of
        Inl e \<Rightarrow> Inl e
      | Inr parts \<Rightarrow> Inr (Group numbers (length numbers) parts (perform_calculations numbers parts)))"

subsection \<open>Solutions\<close>

text \<open>The body of the two loops of \<^verbatim>\<open>unique_groups\<close>, over the combinations of all
  sizes in turn: a tuple that is a key already is skipped, a new one gets its Group,
  built from the index as it is then, and is stored behind the existing keys.\<close>

fun add_groups :: "index \<Rightarrow> int list list \<Rightarrow> error + index" where
  "add_groups all_groups [] = Inr all_groups"
| "add_groups all_groups (numbers # rest) =
     (if numbers \<in> fst ` set all_groups then add_groups all_groups rest
      else case Group_init numbers all_groups of
        Inl e \<Rightarrow> Inl e
      | Inr g \<Rightarrow> add_groups (all_groups @ [(numbers, g)]) rest)"

definition unique_groups :: "int list \<Rightarrow> error + index" where
  "unique_groups all_numbers =
     add_groups [] (concat (map (combinations all_numbers) [1..<length all_numbers + 1]))"

definition walk :: "index \<Rightarrow> calculation list" where
  "walk all_groups = concat (map (\<lambda>(k, g). calculations g) all_groups)"

subsection \<open>The search\<close>

text \<open>One step of the loop of \<^verbatim>\<open>countdown_solver\<close> on the state
  \<open>(smallest_difference, bestresults)\<close>.\<close>

definition search_step :: "int \<Rightarrow> calculation \<Rightarrow> int \<times> calculation list \<Rightarrow> int \<times> calculation list" where
  "search_step target calculation st =
     (let (smallest_difference, bestresults) = st;
          diff = \<bar>result calculation - target\<bar>
      in if diff \<le> smallest_difference then
           (if diff < smallest_difference then (diff, [calculation])
            else (smallest_difference, bestresults @ [calculation]))
         else (smallest_difference, bestresults))"

definition search :: "int \<Rightarrow> calculation list \<Rightarrow> int \<times> calculation list" where
  "search target calcs = fold (search_step target) calcs (target, [])"

text \<open>\<^verbatim>\<open>countdown_solver\<close> after the command line is parsed into the target and the
  unsorted numbers (six of them with the line of the source that is active, any number
  with the line that is commented out): the numbers are sorted descending, the index is
  built, and the search's final state \<open>(smallest_difference, bestresults)\<close> is what
  \<^verbatim>\<open>output\<close> receives.\<close>

definition countdown_solver :: "int \<Rightarrow> int list \<Rightarrow> error + (int \<times> calculation list)" where
  "countdown_solver target unsorted_numbers =
     (let numbers = rev (sort unsorted_numbers) in
      case unique_groups numbers of
        Inl e \<Rightarrow> Inl e
      | Inr all_groups \<Rightarrow> Inr (search target (walk all_groups)))"

subsection \<open>Memo of the half binomial coefficient\<close>

text \<open>How many times a run of calls computes the pair \<open>p\<close>.\<close>

definition times_computed :: "int \<times> int \<Rightarrow> memo \<Rightarrow> (int \<times> int) list \<Rightarrow> nat" where
  "times_computed p cache calls =
     length (filter (\<lambda>(c, (r, computed)). c = p \<and> computed)
                    (zip calls (halfbinom_calls cache calls)))"

text \<open>A memo whose keys are distinct and whose values are what the body returns.\<close>

definition memo_ok :: "memo \<Rightarrow> bool" where
  "memo_ok cache \<longleftrightarrow> distinct (map fst cache) \<and> list_all (\<lambda>((n, k), r). r = halfbinom n k) cache"

subsection \<open>Well-formed groups\<close>

text \<open>The groups that \<open>Group_init\<close> builds from an index of such groups: a group of one
  number, or a group with at least one partition pair whose sides are such groups for a
  sub-tuple and for what \<open>filtering\<close> leaves of it.\<close>

inductive wf_group :: "group \<Rightarrow> bool" where
  single: "wf_group (Group [n] 1 [] [singleton n])"
| split: "2 \<le> length ns \<Longrightarrow> parts \<noteq> [] \<Longrightarrow>
     \<forall>(A, B) \<in> set parts.
        wf_group A \<and> wf_group B \<and> subseq (group_numbers A) ns \<and> group_numbers A \<noteq> []
        \<and> length (group_numbers A) < length ns
        \<and> group_numbers B = filtering ns (group_numbers A) \<Longrightarrow>
     wf_group (Group ns (length ns) parts (perform_calculations ns parts))"

text \<open>An index whose keys are distinct and are the numbers of their groups.\<close>

definition index_ok :: "index \<Rightarrow> bool" where
  "index_ok idx \<longleftrightarrow> distinct (map fst idx) \<and> (\<forall>(k, g) \<in> set idx. group_numbers g = k \<and> wf_group g)"

subsection \<open>Groups with every split\<close>

text \<open>The groups of which each one beyond a single number holds, for every split of its
  numbers into two non-empty multisets, a partition pair with these contents on its two
  sides (in one order or the other), the sides being such groups again.\<close>

inductive full_group :: "group \<Rightarrow> bool" where
  single: "full_group (Group [n] 1 [] [singleton n])"
| split: "2 \<le> length ns \<Longrightarrow>
     \<forall>(A, B) \<in> set parts. full_group A \<and> full_group B \<Longrightarrow>
     \<forall>M1 M2. M1 \<noteq> {#} \<and> M2 \<noteq> {#} \<and> M1 + M2 = mset ns \<longrightarrow>
        (\<exists>(A, B) \<in> set parts.
            mset (group_numbers A) = M1 \<and> mset (group_numbers B) = M2
          \<or> mset (group_numbers A) = M2 \<and> mset (group_numbers B) = M1) \<Longrightarrow>
     full_group (Group ns (length ns) parts (perform_calculations ns parts))"

text \<open>An index whose keys are the numbers of their groups, all of them such groups.\<close>

definition index_full :: "index \<Rightarrow> bool" where
  "index_full idx \<longleftrightarrow> (\<forall>(k, g) \<in> set idx. group_numbers g = k \<and> full_group g)"

section \<open>Basic facts\<close>

lemma in_set_combinations:
  "ys \<in> set (combinations xs m) \<longleftrightarrow> subseq ys xs \<and> length ys = m"
proof (induction xs m arbitrary: ys rule: combinations.induct)
  case (1 xs)
  then show ?case by auto
next
  case (2 m)
  then show ?case by auto
next
  case (3 x xs m)
  show ?case
  proof (cases ys)
    case Nil
    then show ?thesis by (auto simp: 3)
  next
    case (Cons y zs)
    then show ?thesis
      using 3 subseq_Cons'[of y zs xs] by (auto simp: subseq_Cons2_iff)
  qed
qed

lemma combinations_nonempty: "m \<le> length xs \<Longrightarrow> combinations xs m \<noteq> []"
proof -
  assume "m \<le> length xs"
  then have "take m xs \<in> set (combinations xs m)"
    by (simp add: in_set_combinations min_def prefix_imp_subseq take_is_prefix)
  then show ?thesis by auto
qed

lemma subseq_filtering: "subseq (filtering xs ks) xs"
  by (induction xs ks rule: filtering.induct) auto

lemma mset_filtering:
  "subseq ks xs \<Longrightarrow> mset (filtering xs ks) + mset ks = mset xs"
proof (induction xs ks rule: filtering.induct)
  case (1 elements)
  then show ?case by simp
next
  case (2 n iterable)
  then show ?case by simp
next
  case (3 n iterable k elems)
  then show ?case by (auto simp: subseq_Cons2_iff)
qed

lemma length_filtering:
  assumes "subseq ks xs"
  shows "length (filtering xs ks) + length ks = length xs"
proof -
  have "size (mset (filtering xs ks) + mset ks) = size (mset xs)"
    using mset_filtering[OF assms] by simp
  then show ?thesis by simp
qed

lemma filtering_Nil [simp]: "filtering xs [] = xs"
  by (induction xs) auto

lemma nths_Cons_in: "nths (x # xs) (insert 0 (Suc ` I)) = x # nths xs I"
proof -
  have "{j. Suc j \<in> insert 0 (Suc ` I)} = I" by auto
  then show ?thesis unfolding nths_Cons by simp
qed

lemma nths_Cons_out: "nths (x # xs) (Suc ` I) = nths xs I"
proof -
  have "{j. Suc j \<in> Suc ` I} = I" by auto
  moreover have "0 \<notin> Suc ` I" by auto
  ultimately show ?thesis unfolding nths_Cons by simp
qed

lemma nths_Cons_in_compl: "nths (x # xs) (- insert 0 (Suc ` I)) = nths xs (- I)"
proof -
  have "{j. Suc j \<in> - insert 0 (Suc ` I)} = - I" by auto
  moreover have "0 \<notin> - insert 0 (Suc ` I)" by auto
  ultimately show ?thesis unfolding nths_Cons by simp
qed

lemma nths_Cons_out_compl: "nths (x # xs) (- (Suc ` I)) = x # nths xs (- I)"
proof -
  have "{j. Suc j \<in> - (Suc ` I)} = - I" by auto
  moreover have "0 \<in> - (Suc ` I)" by auto
  ultimately show ?thesis unfolding nths_Cons by simp
qed

lemma filtering_positions:
  "subseq ks xs \<Longrightarrow> \<exists>I. ks = nths xs I \<and> filtering xs ks = nths xs (- I)"
proof (induction xs ks rule: filtering.induct)
  case (1 elements)
  then show ?case by simp
next
  case (2 n iterable)
  have "nths (n # iterable) UNIV = n # iterable"
    by (rule nths_all) simp
  then have "[] = nths (n # iterable) {} \<and> filtering (n # iterable) [] = nths (n # iterable) (- {})"
    by simp
  then show ?case by (intro exI[of _ "{}"])
next
  case (3 n iterable k elems)
  show ?case
  proof (cases "n = k")
    case True
    with "3.prems" have "subseq elems iterable" by simp
    from "3.IH"(1)[OF True this]
    obtain I where I: "elems = nths iterable I" "filtering iterable elems = nths iterable (- I)"
      by blast
    have "k # elems = nths (n # iterable) (insert 0 (Suc ` I))"
      using True I(1) by (simp only: nths_Cons_in)
    moreover have "filtering (n # iterable) (k # elems) = filtering iterable elems"
      using True by simp
    then have "filtering (n # iterable) (k # elems) = nths (n # iterable) (- insert 0 (Suc ` I))"
      using I(2) by (simp only: nths_Cons_in_compl)
    ultimately show ?thesis by (intro exI[of _ "insert 0 (Suc ` I)"] conjI)
  next
    case False
    with "3.prems" have "subseq (k # elems) iterable" by (simp add: subseq_Cons2_iff)
    from "3.IH"(2)[OF False this]
    obtain I where I: "k # elems = nths iterable I" "filtering iterable (k # elems) = nths iterable (- I)"
      by blast
    have "k # elems = nths (n # iterable) (Suc ` I)"
      using I(1) by (simp only: nths_Cons_out)
    moreover have "filtering (n # iterable) (k # elems) = n # filtering iterable (k # elems)"
      using False by simp
    then have "filtering (n # iterable) (k # elems) = nths (n # iterable) (- (Suc ` I))"
      using I(2) by (simp only: nths_Cons_out_compl)
    ultimately show ?thesis by (intro exI[of _ "Suc ` I"] conjI)
  qed
qed

lemma enumerate_until_prefix: "prefix (enumerate_until limit cnt xs) xs"
  by (induction xs arbitrary: cnt) auto

lemma set_enumerate_until: "set (enumerate_until limit cnt xs) \<subseteq> set xs"
  by (rule set_mono_prefix[OF enumerate_until_prefix])

lemma enumerate_until_nonempty: "xs \<noteq> [] \<Longrightarrow> enumerate_until limit cnt xs \<noteq> []"
  by (cases xs) auto

lemma enumerate_until_None: "enumerate_until None cnt xs = xs"
  by (induction xs arbitrary: cnt) auto

lemma zip_longest_Nil2: "zip_longest xs [] = map (\<lambda>x. (Some x, None)) xs"
  by (induction xs) auto

lemma all_paired_combinations_Some:
  "all_paired_combinations numbers (map (\<lambda>(m, l). (Some m, l)) ms) =
     Inr (concat (map (\<lambda>(m, l). paired_combinations numbers m (case l of None \<Rightarrow> None | Some l \<Rightarrow> l)) ms))"
  by (induction ms) (auto split: prod.splits)

lemma paired_combinations_props:
  assumes "(n1, n2) \<in> set (paired_combinations numbers m limit)"
  shows "subseq n1 numbers \<and> length n1 = m \<and> n2 = filtering numbers n1"
proof -
  from assms have "n1 \<in> set (enumerate_until limit 1 (combinations numbers m))"
    and "n2 = filtering numbers n1"
    by (auto simp: paired_combinations_def)
  then show ?thesis
    using set_enumerate_until[of limit 1 "combinations numbers m"]
    by (auto simp: in_set_combinations)
qed

lemma paired_combinations_nonempty:
  "m \<le> length numbers \<Longrightarrow> paired_combinations numbers m limit \<noteq> []"
  by (simp add: paired_combinations_def enumerate_until_nonempty combinations_nonempty)

lemma in_concat_paired:
  "(n1, n2) \<in> set (concat (map (\<lambda>(m, l). paired_combinations numbers m (f l)) ms)) \<Longrightarrow>
   \<exists>(m, l) \<in> set ms. (n1, n2) \<in> set (paired_combinations numbers m (f l))"
  by (induction ms) auto

lemma candidates_ok:
  assumes "2 \<le> length numbers"
  shows "\<exists>cands. all_paired_combinations numbers
            (zip_longest [(length numbers + 1) div 2..<length numbers] [h]) = Inr cands
          \<and> cands \<noteq> []
          \<and> (\<forall>(n1, n2) \<in> set cands. subseq n1 numbers \<and> n1 \<noteq> [] \<and> length n1 < length numbers
                 \<and> n2 = filtering numbers n1)"
proof -
  let ?s = "length numbers"
  let ?m = "(?s + 1) div 2"
  have lt: "?m < ?s" using assms by arith
  have pos: "0 < ?m" using assms by arith
  have r: "[?m..<?s] = ?m # [Suc ?m..<?s]"
    using lt by (rule upt_conv_Cons)
  let ?ms = "(?m, Some h) # map (\<lambda>m. (m, None)) [Suc ?m..<?s]"
  have z: "zip_longest [?m..<?s] [h] = map (\<lambda>(m, l). (Some m, l)) ?ms"
    unfolding r by (simp add: zip_longest_Nil2 comp_def)
  let ?cands = "concat (map (\<lambda>(m, l). paired_combinations numbers m (case l of None \<Rightarrow> None | Some l \<Rightarrow> l)) ?ms)"
  have eq: "all_paired_combinations numbers (zip_longest [?m..<?s] [h]) = Inr ?cands"
    unfolding z by (rule all_paired_combinations_Some)
  have ne: "?cands \<noteq> []"
    using paired_combinations_nonempty[of ?m numbers h] lt by simp
  have props: "\<forall>(n1, n2) \<in> set ?cands. subseq n1 numbers \<and> n1 \<noteq> [] \<and> length n1 < length numbers
                 \<and> n2 = filtering numbers n1"
  proof (clarify)
    fix n1 n2 assume "(n1, n2) \<in> set ?cands"
    then have "\<exists>(m, l) \<in> set ?ms. (n1, n2) \<in> set (paired_combinations numbers m (case l of None \<Rightarrow> None | Some l \<Rightarrow> l))"
      by (rule in_concat_paired)
    then obtain m l where ml: "(m, l) \<in> set ?ms"
      and mem: "(n1, n2) \<in> set (paired_combinations numbers m (case l of None \<Rightarrow> None | Some l \<Rightarrow> l))"
      by blast
    from ml have "?m \<le> m \<and> m < ?s" using lt by auto
    with paired_combinations_props[OF mem] pos
    show "subseq n1 numbers \<and> n1 \<noteq> [] \<and> length n1 < length numbers \<and> n2 = filtering numbers n1"
      by auto
  qed
  from eq ne props show ?thesis by (intro exI[of _ ?cands] conjI)
qed

lemma unique_pairs_ok:
  assumes "\<forall>(n1, n2) \<in> set cands. n1 \<in> fst ` set idx \<and> n2 \<in> fst ` set idx"
  shows "\<exists>ps. unique_pairs idx U cands = Inr ps
          \<and> (\<forall>(A, B) \<in> set ps. \<exists>(n1, n2) \<in> set cands. map_of idx n1 = Some A \<and> map_of idx n2 = Some B)
          \<and> (cands \<noteq> [] \<and> fst (hd cands) \<notin> U \<longrightarrow> ps \<noteq> [])"
  using assms
proof (induction cands arbitrary: U)
  case Nil
  then show ?case by simp
next
  case (Cons c cands)
  obtain n1 n2 where c: "c = (n1, n2)" by (cases c)
  from Cons.prems have tl: "\<forall>(n1, n2) \<in> set cands. n1 \<in> fst ` set idx \<and> n2 \<in> fst ` set idx"
    by simp
  show ?case
  proof (cases "n1 \<in> U")
    case True
    from Cons.IH[OF tl, of U] obtain ps where
      "unique_pairs idx U cands = Inr ps"
      "\<forall>(A, B) \<in> set ps. \<exists>(n1, n2) \<in> set cands. map_of idx n1 = Some A \<and> map_of idx n2 = Some B"
      by blast
    then show ?thesis using True c by auto
  next
    case False
    from Cons.prems c have "n1 \<in> fst ` set idx" "n2 \<in> fst ` set idx" by auto
    then obtain A B where AB: "map_of idx n1 = Some A" "map_of idx n2 = Some B"
      by (metis domD dom_map_of_conv_image_fst)
    from Cons.IH[OF tl, of "insert n1 U"] obtain ps where ps:
      "unique_pairs idx (insert n1 U) cands = Inr ps"
      "\<forall>(A, B) \<in> set ps. \<exists>(n1, n2) \<in> set cands. map_of idx n1 = Some A \<and> map_of idx n2 = Some B"
      by blast
    have "unique_pairs idx U (c # cands) = Inr ((A, B) # ps)"
      using False c AB ps(1) by (simp add: lookup_def)
    moreover have "\<forall>(A', B') \<in> set ((A, B) # ps).
        \<exists>(n1, n2) \<in> set (c # cands). map_of idx n1 = Some A' \<and> map_of idx n2 = Some B'"
      using AB ps(2) c by fastforce
    ultimately show ?thesis by (intro exI[of _ "(A, B) # ps"]) simp
  qed
qed

lemma map_of_in_set: "map_of idx k = Some g \<Longrightarrow> (k, g) \<in> set idx"
  by (rule map_of_SomeD)

lemma Group_init_single:
  "Group_init [n] idx = Inr (Group [n] 1 [] [singleton n])"
  by (simp add: Group_init_def partition_into_unique_pairs_def perform_calculations_def)

lemma Group_init_split:
  assumes len: "2 \<le> length numbers"
    and closed: "\<forall>ys. subseq ys numbers \<and> ys \<noteq> [] \<and> length ys < length numbers \<longrightarrow> ys \<in> fst ` set idx"
  shows "\<exists>parts. Group_init numbers idx
             = Inr (Group numbers (length numbers) parts (perform_calculations numbers parts))
          \<and> parts \<noteq> []
          \<and> (\<forall>(A, B) \<in> set parts. \<exists>n1.
                 (n1, A) \<in> set idx \<and> (filtering numbers n1, B) \<in> set idx
               \<and> subseq n1 numbers \<and> n1 \<noteq> [] \<and> length n1 < length numbers)"
proof -
  let ?h = "halfbinom (int (length numbers)) (int (length numbers) div 2)"
  from candidates_ok[OF len, of ?h] obtain cands where
    c1: "all_paired_combinations numbers
            (zip_longest [(length numbers + 1) div 2..<length numbers] [?h]) = Inr cands"
    and c2: "cands \<noteq> []"
    and c3: "\<forall>(n1, n2) \<in> set cands. subseq n1 numbers \<and> n1 \<noteq> [] \<and> length n1 < length numbers
                 \<and> n2 = filtering numbers n1"
    by blast
  have keys: "\<forall>(n1, n2) \<in> set cands. n1 \<in> fst ` set idx \<and> n2 \<in> fst ` set idx"
  proof (clarify)
    fix n1 n2 assume mem: "(n1, n2) \<in> set cands"
    with c3 have p: "subseq n1 numbers" "n1 \<noteq> []" "length n1 < length numbers"
      "n2 = filtering numbers n1" by auto
    have "0 < length n1" using p(2) by simp
    with length_filtering[OF p(1)] p(3) have "length (filtering numbers n1) < length numbers"
      "0 < length (filtering numbers n1)" by arith+
    with p(4) have "length n2 < length numbers" "n2 \<noteq> []" by simp_all
    moreover have "subseq n2 numbers" using p(4) subseq_filtering by simp
    ultimately show "n1 \<in> fst ` set idx \<and> n2 \<in> fst ` set idx"
      using closed p by blast
  qed
  from unique_pairs_ok[OF keys, of "{}"] obtain ps where
    p1: "unique_pairs idx {} cands = Inr ps"
    and p2: "\<forall>(A, B) \<in> set ps. \<exists>(n1, n2) \<in> set cands. map_of idx n1 = Some A \<and> map_of idx n2 = Some B"
    and p3: "cands \<noteq> [] \<and> fst (hd cands) \<notin> {} \<longrightarrow> ps \<noteq> []"
    by blast
  have ne1: "length numbers \<noteq> 1" using len by simp
  have g: "Group_init numbers idx
             = Inr (Group numbers (length numbers) ps (perform_calculations numbers ps))"
    using ne1 c1 p1 by (simp add: Group_init_def partition_into_unique_pairs_def Let_def)
  have ne: "ps \<noteq> []" using p3 c2 by simp
  have props: "\<forall>(A, B) \<in> set ps. \<exists>n1.
                 (n1, A) \<in> set idx \<and> (filtering numbers n1, B) \<in> set idx
               \<and> subseq n1 numbers \<and> n1 \<noteq> [] \<and> length n1 < length numbers"
  proof (clarify)
    fix A B assume "(A, B) \<in> set ps"
    with p2 obtain n1 n2 where n: "(n1, n2) \<in> set cands"
      "map_of idx n1 = Some A" "map_of idx n2 = Some B" by blast
    with c3 have "subseq n1 numbers" "n1 \<noteq> []" "length n1 < length numbers"
      "n2 = filtering numbers n1" by auto
    with n map_of_in_set show "\<exists>n1. (n1, A) \<in> set idx \<and> (filtering numbers n1, B) \<in> set idx
               \<and> subseq n1 numbers \<and> n1 \<noteq> [] \<and> length n1 < length numbers"
      by (intro exI[of _ n1]) auto
  qed
  from g ne props show ?thesis by (intro exI[of _ ps] conjI)
qed

lemma Group_init_wf:
  assumes ne: "numbers \<noteq> []"
    and closed: "\<forall>ys. subseq ys numbers \<and> ys \<noteq> [] \<and> length ys < length numbers \<longrightarrow> ys \<in> fst ` set idx"
    and ok: "index_ok idx"
  shows "\<exists>g. Group_init numbers idx = Inr g \<and> group_numbers g = numbers \<and> wf_group g"
proof (cases "length numbers = 1")
  case True
  then obtain n where "numbers = [n]" by (cases numbers) auto
  then show ?thesis using Group_init_single[of n idx] wf_group.single[of n] by simp
next
  case False
  moreover have "0 < length numbers" using ne by simp
  ultimately have len: "2 \<le> length numbers" by arith
  from Group_init_split[OF len closed] obtain parts where
    g: "Group_init numbers idx
          = Inr (Group numbers (length numbers) parts (perform_calculations numbers parts))"
    and pne: "parts \<noteq> []"
    and props: "\<forall>(A, B) \<in> set parts. \<exists>n1.
                 (n1, A) \<in> set idx \<and> (filtering numbers n1, B) \<in> set idx
               \<and> subseq n1 numbers \<and> n1 \<noteq> [] \<and> length n1 < length numbers"
    by blast
  have "\<forall>(A, B) \<in> set parts.
        wf_group A \<and> wf_group B \<and> subseq (group_numbers A) numbers \<and> group_numbers A \<noteq> []
        \<and> length (group_numbers A) < length numbers
        \<and> group_numbers B = filtering numbers (group_numbers A)"
  proof (clarify)
    fix A B assume "(A, B) \<in> set parts"
    with props obtain n1 where n1: "(n1, A) \<in> set idx" "(filtering numbers n1, B) \<in> set idx"
      "subseq n1 numbers" "n1 \<noteq> []" "length n1 < length numbers" by blast
    from ok n1(1,2) have "group_numbers A = n1 \<and> wf_group A"
      "group_numbers B = filtering numbers n1 \<and> wf_group B"
      unfolding index_ok_def by auto
    with n1 show "wf_group A \<and> wf_group B \<and> subseq (group_numbers A) numbers \<and> group_numbers A \<noteq> []
        \<and> length (group_numbers A) < length numbers
        \<and> group_numbers B = filtering numbers (group_numbers A)" by simp
  qed
  from wf_group.split[OF len pne this] g show ?thesis by simp
qed

lemma add_groups_append:
  "add_groups idx (as @ bs) =
     (case add_groups idx as of Inl e \<Rightarrow> Inl e | Inr idx' \<Rightarrow> add_groups idx' bs)"
  by (induction as arbitrary: idx) (auto split: sum.splits)

lemma add_groups_block:
  assumes "\<forall>x \<in> set block. x \<noteq> [] \<and>
             (\<forall>ys. subseq ys x \<and> ys \<noteq> [] \<and> length ys < length x \<longrightarrow> ys \<in> fst ` set idx)"
    and "index_ok idx"
  shows "\<exists>idx'. add_groups idx block = Inr idx' \<and> index_ok idx'
           \<and> fst ` set idx' = fst ` set idx \<union> set block"
  using assms
proof (induction block arbitrary: idx)
  case Nil
  then show ?case by simp
next
  case (Cons x block)
  show ?case
  proof (cases "x \<in> fst ` set idx")
    case True
    from Cons.prems have "\<forall>x \<in> set block. x \<noteq> [] \<and>
             (\<forall>ys. subseq ys x \<and> ys \<noteq> [] \<and> length ys < length x \<longrightarrow> ys \<in> fst ` set idx)"
      by simp
    from Cons.IH[OF this Cons.prems(2)] obtain idx' where
      "add_groups idx block = Inr idx'" "index_ok idx'"
      "fst ` set idx' = fst ` set idx \<union> set block" by blast
    with True show ?thesis by auto
  next
    case False
    from Cons.prems(1) have x: "x \<noteq> []"
      "\<forall>ys. subseq ys x \<and> ys \<noteq> [] \<and> length ys < length x \<longrightarrow> ys \<in> fst ` set idx"
      by simp_all
    from Group_init_wf[OF x Cons.prems(2)] obtain g where
      g: "Group_init x idx = Inr g" "group_numbers g = x" "wf_group g" by blast
    let ?idx = "idx @ [(x, g)]"
    have ok: "index_ok ?idx"
      using Cons.prems(2) False g unfolding index_ok_def by auto
    have keys: "fst ` set ?idx = insert x (fst ` set idx)" by simp
    have "\<forall>y \<in> set block. y \<noteq> [] \<and>
             (\<forall>ys. subseq ys y \<and> ys \<noteq> [] \<and> length ys < length y \<longrightarrow> ys \<in> fst ` set ?idx)"
      using Cons.prems(1) unfolding keys by simp
    from Cons.IH[OF this ok] obtain idx' where
      i: "add_groups ?idx block = Inr idx'" "index_ok idx'"
      "fst ` set idx' = fst ` set ?idx \<union> set block" by blast
    have "add_groups idx (x # block) = Inr idx'"
      using False g(1) i(1) by simp
    moreover have "fst ` set idx' = fst ` set idx \<union> set (x # block)"
      using i(3) unfolding keys by simp
    ultimately show ?thesis using i(2) by (intro exI[of _ idx'] conjI)
  qed
qed

lemma add_groups_sizes:
  "n \<le> length xs \<Longrightarrow>
   \<exists>idx. add_groups [] (concat (map (combinations xs) [1..<Suc n])) = Inr idx \<and> index_ok idx
     \<and> fst ` set idx = {ys. subseq ys xs \<and> ys \<noteq> [] \<and> length ys \<le> n}"
proof (induction n)
  case 0
  then show ?case by (simp add: index_ok_def)
next
  case (Suc n)
  then obtain idx where idx: "add_groups [] (concat (map (combinations xs) [1..<Suc n])) = Inr idx"
    "index_ok idx" "fst ` set idx = {ys. subseq ys xs \<and> ys \<noteq> [] \<and> length ys \<le> n}"
    by auto
  have blk: "\<forall>x \<in> set (combinations xs (Suc n)). x \<noteq> [] \<and>
             (\<forall>ys. subseq ys x \<and> ys \<noteq> [] \<and> length ys < length x \<longrightarrow> ys \<in> fst ` set idx)"
  proof (intro ballI conjI allI impI)
    fix x assume "x \<in> set (combinations xs (Suc n))"
    then have x: "subseq x xs" "length x = Suc n" by (simp_all add: in_set_combinations)
    then show "x \<noteq> []" by auto
    fix ys assume "subseq ys x \<and> ys \<noteq> [] \<and> length ys < length x"
    with x have "subseq ys xs" "ys \<noteq> []" "length ys \<le> n"
      using subseq_order.order_trans by auto
    then show "ys \<in> fst ` set idx" unfolding idx(3) by simp
  qed
  from add_groups_block[OF blk idx(2)] obtain idx' where
    i: "add_groups idx (combinations xs (Suc n)) = Inr idx'" "index_ok idx'"
       "fst ` set idx' = fst ` set idx \<union> set (combinations xs (Suc n))" by blast
  have "concat (map (combinations xs) [1..<Suc (Suc n)])
          = concat (map (combinations xs) [1..<Suc n]) @ combinations xs (Suc n)"
    by simp
  then have "add_groups [] (concat (map (combinations xs) [1..<Suc (Suc n)])) = Inr idx'"
    using idx(1) i(1) by (simp only: add_groups_append sum.case)
  moreover have "fst ` set idx' = {ys. subseq ys xs \<and> ys \<noteq> [] \<and> length ys \<le> Suc n}"
    unfolding i(3) idx(3) by (auto simp: in_set_combinations le_Suc_eq)
  ultimately show ?case using i(2) by (intro exI[of _ idx'] conjI)
qed

lemma unique_groups_ok:
  "\<exists>idx. unique_groups xs = Inr idx \<and> index_ok idx
     \<and> fst ` set idx = {ys. subseq ys xs \<and> ys \<noteq> []}"
proof -
  from add_groups_sizes[of "length xs" xs] obtain idx where
    idx: "add_groups [] (concat (map (combinations xs) [1..<Suc (length xs)])) = Inr idx"
    "index_ok idx" "fst ` set idx = {ys. subseq ys xs \<and> ys \<noteq> [] \<and> length ys \<le> length xs}"
    by blast
  have "{ys. subseq ys xs \<and> ys \<noteq> [] \<and> length ys \<le> length xs} = {ys. subseq ys xs \<and> ys \<noteq> []}"
    using list_emb_length by blast
  with idx show ?thesis unfolding unique_groups_def by (intro exI[of _ idx]) simp
qed

section \<open>Calculation generation\<close>

lemma operations_mem:
  "(r, op) \<in> set (operations hi lo) \<longleftrightarrow>
     (op = ''+'' \<and> r = hi + lo)
   \<or> (op = ''-'' \<and> hi > lo \<and> r = hi - lo)
   \<or> (op = ''x'' \<and> hi > 1 \<and> lo > 1 \<and> r = hi * lo)
   \<or> (op = ''/'' \<and> lo > 1 \<and> lo dvd hi \<and> r = hi div lo)"
  by (auto simp: operations_def mod_eq_0_iff_dvd)

text \<open>
  Claim C4. For two child Calculations with strictly positive results, ordered so that
  \<open>hi \<ge> lo\<close>, generation yields exactly: \<open>hi + lo\<close> always; \<open>hi - lo\<close> only when
  \<open>hi > lo\<close>; \<open>hi * lo\<close> only when both exceed 1; \<open>hi / lo\<close> only when \<open>lo > 1\<close> and
  \<open>lo\<close> divides \<open>hi\<close>. So no subtraction yields a result \<open>\<le> 0\<close>, and no multiplication
  or division has an operand equal to 1 (a division may produce 1). The results of
  \<open>generate\<close> are those of \<open>operations\<close> at the larger and the smaller result.
\<close>

theorem generate_admissible:
  assumes "0 < result calca" and "0 < result calcb"
    and "hi = max (result calca) (result calcb)" and "lo = min (result calca) (result calcb)"
  shows "map result (generate calca calcb) = map fst (operations hi lo)
       \<and> map fst (operations hi lo) =
            [hi + lo] @ (if hi > lo then [hi - lo] else [])
            @ (if hi > 1 \<and> lo > 1 then [hi * lo] else [])
            @ (if lo > 1 \<and> lo dvd hi then [hi div lo] else [])
       \<and> (\<forall>r op. (r, op) \<in> set (operations hi lo) \<longleftrightarrow>
              (op = ''+'' \<and> r = hi + lo)
            \<or> (op = ''-'' \<and> hi > lo \<and> r = hi - lo)
            \<or> (op = ''x'' \<and> hi > 1 \<and> lo > 1 \<and> r = hi * lo)
            \<or> (op = ''/'' \<and> lo > 1 \<and> lo dvd hi \<and> r = hi div lo))
       \<and> (\<forall>(r, op) \<in> set (operations hi lo).
              (op = ''-'' \<longrightarrow> 0 < r)
            \<and> (op = ''x'' \<longrightarrow> hi \<noteq> 1 \<and> lo \<noteq> 1)
            \<and> (op = ''/'' \<longrightarrow> hi \<noteq> 1 \<and> lo \<noteq> 1 \<and> r * lo = hi))"
proof -
  have le: "lo \<le> hi" and pos: "0 < lo" using assms by auto
  have a: "map result (generate calca calcb) = map fst (operations hi lo)"
    using assms(3,4) by (auto simp: generate_def Let_def max_def min_def split: prod.splits)
  have b: "map fst (operations hi lo) =
            [hi + lo] @ (if hi > lo then [hi - lo] else [])
            @ (if hi > 1 \<and> lo > 1 then [hi * lo] else [])
            @ (if lo > 1 \<and> lo dvd hi then [hi div lo] else [])"
    by (simp add: operations_def mod_eq_0_iff_dvd)
  have c: "\<forall>r op. (r, op) \<in> set (operations hi lo) \<longleftrightarrow>
              (op = ''+'' \<and> r = hi + lo)
            \<or> (op = ''-'' \<and> hi > lo \<and> r = hi - lo)
            \<or> (op = ''x'' \<and> hi > 1 \<and> lo > 1 \<and> r = hi * lo)
            \<or> (op = ''/'' \<and> lo > 1 \<and> lo dvd hi \<and> r = hi div lo)"
    using operations_mem by blast
  have d: "\<forall>(r, op) \<in> set (operations hi lo).
              (op = ''-'' \<longrightarrow> 0 < r)
            \<and> (op = ''x'' \<longrightarrow> hi \<noteq> 1 \<and> lo \<noteq> 1)
            \<and> (op = ''/'' \<longrightarrow> hi \<noteq> 1 \<and> lo \<noteq> 1 \<and> r * lo = hi)"
    using le pos by (auto simp: operations_mem)
  from a b c d show ?thesis by (intro conjI)
qed

theorem generate_admissible_witness:
  "map result (generate \<lparr>expr = ''2'', result = 2, is_singleton = True\<rparr>
                        \<lparr>expr = ''6'', result = 6, is_singleton = True\<rparr>) = [8, 4, 12, 3]
   \<and> (3, ''/'') \<in> set (operations 6 2) \<and> (1, ''/'') \<in> set (operations 2 2)
   \<and> (6, ''/'') \<notin> set (operations 6 1) \<and> (6, ''x'') \<notin> set (operations 6 1)
   \<and> (0, ''-'') \<notin> set (operations 2 2)"
  using generate_admissible[of "\<lparr>expr = ''2'', result = 2, is_singleton = True\<rparr>"
          "\<lparr>expr = ''6'', result = 6, is_singleton = True\<rparr>" 6 2]
        generate_admissible[of "\<lparr>expr = ''2'', result = 2, is_singleton = True\<rparr>"
          "\<lparr>expr = ''2'', result = 2, is_singleton = True\<rparr>" 2 2]
        generate_admissible[of "\<lparr>expr = ''6'', result = 6, is_singleton = True\<rparr>"
          "\<lparr>expr = ''1'', result = 1, is_singleton = True\<rparr>" 6 1]
  by simp

section \<open>The scenario of the numbers 2, 2 and the target 7\<close>

lemma solve_2_2:
  "countdown_solver 7 [2, 2] =
     Inr (3, [\<lparr>expr = ''2 + 2'', result = 4, is_singleton = False\<rparr>,
              \<lparr>expr = ''2 x 2'', result = 4, is_singleton = False\<rparr>])"
  by code_simp

text \<open>
  Claim C2, as stated, fails: for the numbers (2, 2) and the target 7 the retained set is
  not the single Calculation "2 + 2".
\<close>

theorem solve_2_2_not_single:
  "countdown_solver 7 [2, 2] \<noteq> Inr (3, [\<lparr>expr = ''2 + 2'', result = 4, is_singleton = False\<rparr>])"
  by (simp add: solve_2_2)

text \<open>
  Claim C2, amended. For the numbers (2, 2) and the target 7 the minimal difference is 3
  and the retained set is exactly the two Calculations with result 4, "2 + 2" and
  "2 x 2", in this order (the product of two numbers above 1 is admitted).
\<close>

theorem solve_2_2_winning_set:
  "countdown_solver 7 [2, 2] =
     Inr (3, [\<lparr>expr = ''2 + 2'', result = 4, is_singleton = False\<rparr>,
              \<lparr>expr = ''2 x 2'', result = 4, is_singleton = False\<rparr>])"
  by (rule solve_2_2)

section \<open>Groups of the index\<close>

lemma wf_group_size:
  "wf_group g \<Longrightarrow> group_size g = length (group_numbers g) \<and> group_numbers g \<noteq> []"
  by (cases rule: wf_group.cases) auto

lemma wf_group_single:
  "wf_group g \<Longrightarrow> group_size g = 1 \<Longrightarrow> partitions g = []"
  by (cases rule: wf_group.cases) auto

lemma wf_group_parts:
  assumes "wf_group g" and "(A, B) \<in> set (partitions g)"
  shows "wf_group A \<and> wf_group B \<and> subseq (group_numbers A) (group_numbers g)
       \<and> group_numbers A \<noteq> [] \<and> length (group_numbers A) < length (group_numbers g)
       \<and> group_numbers B = filtering (group_numbers g) (group_numbers A)"
  using assms by (cases rule: wf_group.cases) auto

lemma wf_group_calculations:
  "wf_group g \<Longrightarrow> calculations g = perform_calculations (group_numbers g) (partitions g)"
  by (cases rule: wf_group.cases) (auto simp: perform_calculations_def)

lemma in_perform_calculations:
  assumes "length ns \<noteq> 1" and "c \<in> set (perform_calculations ns parts)"
  shows "\<exists>A B calc1 calc2. (A, B) \<in> set parts \<and> calc1 \<in> set (calculations A)
           \<and> calc2 \<in> set (calculations B) \<and> c \<in> set (generate calc1 calc2)"
  using assms by (auto simp: perform_calculations_def)


lemma subseq_set_subset: "subseq xs ys \<Longrightarrow> set xs \<subseteq> set ys"
  using list_emb_set[of "(=)" xs ys] by auto

lemma operations_pos:
  assumes "lo \<le> hi" and "0 < lo" and "(r, op) \<in> set (operations hi lo)"
  shows "0 < r"
proof -
  from assms(3) consider "r = hi + lo" | "hi > lo" "r = hi - lo" | "r = hi * lo"
    | "lo dvd hi" "r = hi div lo"
    unfolding operations_mem by blast
  then show ?thesis
  proof cases
    case 1
    then show ?thesis using assms by simp
  next
    case 2
    then show ?thesis by simp
  next
    case 3
    then show ?thesis using assms by simp
  next
    case 4
    then show ?thesis using assms by (simp add: pos_imp_zdiv_pos_iff)
  qed
qed

lemma generate_results:
  "map result (generate calca calcb) =
     map fst (operations (max (result calca) (result calcb)) (min (result calca) (result calcb)))"
  by (auto simp: generate_def Let_def max_def min_def split: prod.splits)

lemma generate_pos:
  assumes "0 < result calca" and "0 < result calcb" and "c \<in> set (generate calca calcb)"
  shows "0 < result c"
proof -
  let ?hi = "max (result calca) (result calcb)"
  let ?lo = "min (result calca) (result calcb)"
  from assms(3) have "result c \<in> set (map result (generate calca calcb))" by simp
  then have "result c \<in> fst ` set (operations ?hi ?lo)"
    unfolding generate_results by simp
  then obtain op where "(result c, op) \<in> set (operations ?hi ?lo)" by auto
  moreover have "?lo \<le> ?hi" "0 < ?lo" using assms(1,2) by auto
  ultimately show ?thesis using operations_pos by blast
qed

lemma wf_group_pos:
  "wf_group g \<Longrightarrow> \<forall>n \<in> set (group_numbers g). 0 < n \<Longrightarrow> \<forall>c \<in> set (calculations g). 0 < result c"
proof (induction rule: wf_group.induct)
  case (single n)
  then show ?case by (simp add: singleton_def)
next
  case (split ns parts)
  show ?case
  proof
    fix c assume "c \<in> set (calculations (Group ns (length ns) parts (perform_calculations ns parts)))"
    then have c: "c \<in> set (perform_calculations ns parts)" by simp
    have "length ns \<noteq> 1" using split.hyps(1) by simp
    from in_perform_calculations[OF this c] obtain A B calc1 calc2 where
      m: "(A, B) \<in> set parts" "calc1 \<in> set (calculations A)" "calc2 \<in> set (calculations B)"
         "c \<in> set (generate calc1 calc2)" by blast
    from split.IH m(1) have
      ihA: "\<forall>n\<in>set (group_numbers A). 0 < n \<Longrightarrow> \<forall>c\<in>set (calculations A). 0 < result c"
      and ihB: "\<forall>n\<in>set (group_numbers B). 0 < n \<Longrightarrow> \<forall>c\<in>set (calculations B). 0 < result c"
      and sA: "subseq (group_numbers A) ns"
      and nB: "group_numbers B = filtering ns (group_numbers A)"
      by auto
    have pos: "\<forall>n \<in> set ns. 0 < n" using split.prems by simp
    have "set (group_numbers A) \<subseteq> set ns" using sA by (rule subseq_set_subset)
    with pos ihA have pA: "\<forall>c\<in>set (calculations A). 0 < result c" by blast
    have "set (group_numbers B) \<subseteq> set ns"
      unfolding nB using subseq_filtering by (rule subseq_set_subset)
    with pos ihB have pB: "\<forall>c\<in>set (calculations B). 0 < result c" by blast
    from pA pB m show "0 < result c" using generate_pos by blast
  qed
qed

lemma generate_nonempty: "generate calca calcb \<noteq> []"
  by (simp add: generate_def Let_def operations_def)

lemma generate_hd:
  "hd (generate calca calcb) =
     \<lparr>expr = paren (if result calca < result calcb then calcb else calca) @ '' + ''
              @ paren (if result calca < result calcb then calca else calcb),
      result = result calca + result calcb, is_singleton = False\<rparr>"
  by (simp add: generate_def Let_def operations_def)

lemma wf_group_calculations_nonempty: "wf_group g \<Longrightarrow> calculations g \<noteq> []"
proof (induction rule: wf_group.induct)
  case (single n)
  then show ?case by simp
next
  case (split ns parts)
  from split.hyps(2) obtain A B rest where parts: "parts = (A, B) # rest"
    by (cases parts) auto
  with split.IH have "calculations A \<noteq> []" "calculations B \<noteq> []" by auto
  then obtain c1 cs1 c2 cs2 where cs: "calculations A = c1 # cs1" "calculations B = c2 # cs2"
    by (meson list.exhaust)
  have "length ns \<noteq> 1" using split.hyps(1) by simp
  then have "perform_calculations ns parts \<noteq> []"
    using parts cs generate_nonempty[of c1 c2] by (simp add: perform_calculations_def)
  then show ?case by simp
qed

lemma index_ok_group: "index_ok idx \<Longrightarrow> (k, g) \<in> set idx \<Longrightarrow> group_numbers g = k \<and> wf_group g"
  unfolding index_ok_def by auto


lemma index_2_2:
  "unique_groups [2, 2] =
     Inr [([2], Group [2] 1 [] [\<lparr>expr = ''2'', result = 2, is_singleton = True\<rparr>]),
          ([2, 2], Group [2, 2] 2
             [(Group [2] 1 [] [\<lparr>expr = ''2'', result = 2, is_singleton = True\<rparr>],
               Group [2] 1 [] [\<lparr>expr = ''2'', result = 2, is_singleton = True\<rparr>])]
             [\<lparr>expr = ''2 + 2'', result = 4, is_singleton = False\<rparr>,
              \<lparr>expr = ''2 x 2'', result = 4, is_singleton = False\<rparr>,
              \<lparr>expr = ''2 / 2'', result = 1, is_singleton = False\<rparr>])]"
  by code_simp

section \<open>Partition pairs\<close>

text \<open>
  Claim C7, as stated, fails: in the index of the numbers (2, 2) the group (2, 2) has the
  partition pair of the groups (2) and (2), whose numbers are not disjoint, as sets or as
  multisets.
\<close>

theorem partition_sides_not_disjoint:
  "\<exists>idx G A B. unique_groups [2, 2] = Inr idx \<and> ([2, 2], G) \<in> set idx
      \<and> (A, B) \<in> set (partitions G)
      \<and> set (group_numbers A) \<inter> set (group_numbers B) \<noteq> {}
      \<and> mset (group_numbers A) \<inter># mset (group_numbers B) \<noteq> {#}"
  unfolding index_2_2 by auto

text \<open>
  Claim C7, amended. The index is built without error for every tuple of numbers, each of
  its keys is the numbers of its group, and for every Group \<open>G\<close> of the index and every
  partition pair \<open>(A, B)\<close> stored in it: \<open>size A + size B = size G\<close>, the multiset sum of
  the numbers of \<open>A\<close> and of \<open>B\<close> is the multiset of the numbers of \<open>G\<close>, and the two
  sides are the numbers of \<open>G\<close> at a set of positions and at its complement (disjoint
  positions; the values of the two sides may coincide). A Group of size 1 has no
  partitions.
\<close>

theorem partition_pairs_split:
  "\<exists>idx. unique_groups all_numbers = Inr idx \<and>
     (\<forall>(k, G) \<in> set idx. group_numbers G = k \<and>
        (\<forall>(A, B) \<in> set (partitions G).
            group_size A + group_size B = group_size G
          \<and> mset (group_numbers A) + mset (group_numbers B) = mset (group_numbers G)
          \<and> (\<exists>I. group_numbers A = nths (group_numbers G) I
                 \<and> group_numbers B = nths (group_numbers G) (- I)))
      \<and> (group_size G = 1 \<longrightarrow> partitions G = []))"
proof -
  from unique_groups_ok[of all_numbers] obtain idx where
    idx: "unique_groups all_numbers = Inr idx" "index_ok idx" by blast
  have "\<forall>(k, G) \<in> set idx. group_numbers G = k \<and>
        (\<forall>(A, B) \<in> set (partitions G).
            group_size A + group_size B = group_size G
          \<and> mset (group_numbers A) + mset (group_numbers B) = mset (group_numbers G)
          \<and> (\<exists>I. group_numbers A = nths (group_numbers G) I
                 \<and> group_numbers B = nths (group_numbers G) (- I)))
      \<and> (group_size G = 1 \<longrightarrow> partitions G = [])"
  proof (intro ballI, clarify, intro conjI ballI)
    fix k G assume "(k, G) \<in> set idx"
    with idx(2) have G: "group_numbers G = k" "wf_group G" using index_ok_group by blast+
    show "group_numbers G = k" by fact
    show "group_size G = 1 \<longrightarrow> partitions G = []" using wf_group_single[OF G(2)] by blast
    fix p assume p: "p \<in> set (partitions G)"
    obtain A B where AB: "p = (A, B)" by (cases p)
    from wf_group_parts[OF G(2)] p AB have
      w: "wf_group A" "wf_group B" and s: "subseq (group_numbers A) (group_numbers G)"
      and f: "group_numbers B = filtering (group_numbers G) (group_numbers A)"
      by auto
    have sz: "group_size A = length (group_numbers A)" "group_size B = length (group_numbers B)"
      "group_size G = length (group_numbers G)"
      using wf_group_size w G(2) by blast+
    have 1: "group_size A + group_size B = group_size G"
      using length_filtering[OF s] unfolding sz f by simp
    have 2: "mset (group_numbers A) + mset (group_numbers B) = mset (group_numbers G)"
      using mset_filtering[OF s] unfolding f by (simp add: add.commute)
    have 3: "\<exists>I. group_numbers A = nths (group_numbers G) I
                 \<and> group_numbers B = nths (group_numbers G) (- I)"
      using filtering_positions[OF s] unfolding f .
    from 1 2 3 show "case p of (A, B) \<Rightarrow>
            group_size A + group_size B = group_size G
          \<and> mset (group_numbers A) + mset (group_numbers B) = mset (group_numbers G)
          \<and> (\<exists>I. group_numbers A = nths (group_numbers G) I
                 \<and> group_numbers B = nths (group_numbers G) (- I))"
      unfolding AB by simp
  qed
  with idx(1) show ?thesis by (intro exI[of _ idx] conjI)
qed

theorem partition_pairs_split_witness:
  "\<exists>idx G A B G1. unique_groups [2, 2] = Inr idx
      \<and> ([2, 2], G) \<in> set idx \<and> (A, B) \<in> set (partitions G)
      \<and> group_size A + group_size B = group_size G
      \<and> mset (group_numbers A) + mset (group_numbers B) = mset (group_numbers G)
      \<and> (\<exists>I. group_numbers A = nths (group_numbers G) I
                 \<and> group_numbers B = nths (group_numbers G) (- I))
      \<and> ([2], G1) \<in> set idx \<and> group_size G1 = 1 \<and> partitions G1 = []"
proof -
  define g1 where "g1 = Group [2] 1 [] [\<lparr>expr = ''2'', result = 2, is_singleton = True\<rparr>]"
  define g2 where "g2 = Group [2, 2] 2 [(g1, g1)]
             [\<lparr>expr = ''2 + 2'', result = 4, is_singleton = False\<rparr>,
              \<lparr>expr = ''2 x 2'', result = 4, is_singleton = False\<rparr>,
              \<lparr>expr = ''2 / 2'', result = 1, is_singleton = False\<rparr>]"
  have idx: "unique_groups [2, 2] = Inr [([2], g1), ([2, 2], g2)]"
    unfolding g1_def g2_def by (rule index_2_2)
  from partition_pairs_split[of "[2, 2]"] obtain idx' where
    i: "unique_groups [2, 2] = Inr idx'"
    and p: "\<forall>(k, G) \<in> set idx'. group_numbers G = k \<and>
        (\<forall>(A, B) \<in> set (partitions G).
            group_size A + group_size B = group_size G
          \<and> mset (group_numbers A) + mset (group_numbers B) = mset (group_numbers G)
          \<and> (\<exists>I. group_numbers A = nths (group_numbers G) I
                 \<and> group_numbers B = nths (group_numbers G) (- I)))
      \<and> (group_size G = 1 \<longrightarrow> partitions G = [])"
    by blast
  from i idx have eq: "idx' = [([2], g1), ([2, 2], g2)]" by simp
  have m2: "([2, 2], g2) \<in> set idx'" and m1: "([2], g1) \<in> set idx'" unfolding eq by simp_all
  have ab: "(g1, g1) \<in> set (partitions g2)" by (simp add: g2_def)
  have "\<forall>(A, B) \<in> set (partitions g2).
            group_size A + group_size B = group_size g2
          \<and> mset (group_numbers A) + mset (group_numbers B) = mset (group_numbers g2)
          \<and> (\<exists>I. group_numbers A = nths (group_numbers g2) I
                 \<and> group_numbers B = nths (group_numbers g2) (- I))"
    using bspec[OF p m2] unfolding prod.case by blast
  from bspec[OF this ab] have c2: "group_size g1 + group_size g1 = group_size g2
          \<and> mset (group_numbers g1) + mset (group_numbers g1) = mset (group_numbers g2)
          \<and> (\<exists>I. group_numbers g1 = nths (group_numbers g2) I
                 \<and> group_numbers g1 = nths (group_numbers g2) (- I))"
    unfolding prod.case .
  have s1: "group_size g1 = 1" by (simp add: g1_def)
  have c1: "partitions g1 = []" using bspec[OF p m1] s1 unfolding prod.case by blast
  from i m2 ab c2 m1 s1 c1 show ?thesis by blast
qed

section \<open>Positive results\<close>

text \<open>
  Claim C9. When every input number is strictly positive, the index is built without
  error and every Calculation of every Group, the singleton base cases and all those
  generated from pairs (so every Calculation that \<open>walk\<close> yields), has a strictly
  positive result; the results are integers by their type, a quotient being admitted
  only when the division is exact.
\<close>

theorem results_positive:
  assumes "\<forall>n \<in> set all_numbers. 0 < n"
  shows "\<exists>idx. unique_groups all_numbers = Inr idx
           \<and> (\<forall>(k, g) \<in> set idx. \<forall>c \<in> set (calculations g). 0 < result c)
           \<and> (\<forall>c \<in> set (walk idx). 0 < result c)
           \<and> (\<forall>n \<in> set all_numbers. 0 < result (singleton n))"
proof -
  from unique_groups_ok[of all_numbers] obtain idx where
    idx: "unique_groups all_numbers = Inr idx" "index_ok idx"
    "fst ` set idx = {ys. subseq ys all_numbers \<and> ys \<noteq> []}" by blast
  have g: "\<forall>(k, g) \<in> set idx. \<forall>c \<in> set (calculations g). 0 < result c"
  proof (clarify)
    fix k g c assume kg: "(k, g) \<in> set idx" and c: "c \<in> set (calculations g)"
    from index_ok_group[OF idx(2) kg] have w: "group_numbers g = k" "wf_group g" by auto
    from kg have "k \<in> fst ` set idx" by force
    then have "subseq k all_numbers" unfolding idx(3) by simp
    then have "set k \<subseteq> set all_numbers" by (rule subseq_set_subset)
    with assms w(1) have "\<forall>n \<in> set (group_numbers g). 0 < n" by auto
    from wf_group_pos[OF w(2) this] c show "0 < result c" by blast
  qed
  then have "\<forall>c \<in> set (walk idx). 0 < result c"
    unfolding walk_def by fastforce
  moreover have "\<forall>n \<in> set all_numbers. 0 < result (singleton n)"
    using assms by (simp add: singleton_def)
  ultimately show ?thesis using idx(1) g by (intro exI[of _ idx] conjI)
qed

theorem results_positive_witness:
  "\<exists>idx c. unique_groups [2, 2] = Inr idx \<and> c \<in> set (walk idx) \<and> 0 < result c
      \<and> list_all (\<lambda>c. 0 < result c) (walk idx)"
proof -
  have "\<forall>n \<in> set [2, 2 :: int]. 0 < n" by simp
  from results_positive[OF this] obtain idx where
    i: "unique_groups [2, 2] = Inr idx" and p: "\<forall>c \<in> set (walk idx). 0 < result c"
    by blast
  from i have "walk idx \<noteq> []" unfolding index_2_2 by (auto simp: walk_def)
  then obtain c where c: "c \<in> set (walk idx)" by (cases "walk idx") auto
  with p have "0 < result c" by blast
  moreover from p have "list_all (\<lambda>c. 0 < result c) (walk idx)" by (simp add: list_all_iff)
  ultimately show ?thesis using i c by blast
qed

section \<open>Non-empty calculations\<close>

text \<open>
  Claim C10. For every pair of child Calculations, \<open>generate\<close> yields at least one
  Calculation, and the first one is the addition; consequently the index is built
  without error, every Group's list of calculations is non-empty, and \<open>walk\<close> over the
  index of a non-empty input yields at least one Calculation.
\<close>

theorem calculations_nonempty:
  "generate calca calcb \<noteq> []
   \<and> hd (generate calca calcb) =
       \<lparr>expr = paren (if result calca < result calcb then calcb else calca) @ '' + ''
                @ paren (if result calca < result calcb then calca else calcb),
        result = result calca + result calcb, is_singleton = False\<rparr>
   \<and> (\<exists>idx. unique_groups all_numbers = Inr idx
         \<and> (\<forall>(k, g) \<in> set idx. calculations g \<noteq> [])
         \<and> (all_numbers \<noteq> [] \<longrightarrow> walk idx \<noteq> []))"
proof -
  from unique_groups_ok[of all_numbers] obtain idx where
    idx: "unique_groups all_numbers = Inr idx" "index_ok idx"
    "fst ` set idx = {ys. subseq ys all_numbers \<and> ys \<noteq> []}" by blast
  have g: "\<forall>(k, g) \<in> set idx. calculations g \<noteq> []"
    using index_ok_group[OF idx(2)] wf_group_calculations_nonempty by blast
  have w: "all_numbers \<noteq> [] \<longrightarrow> walk idx \<noteq> []"
  proof
    assume "all_numbers \<noteq> []"
    then obtain x xs where "all_numbers = x # xs" by (cases all_numbers) auto
    then have "[x] \<in> fst ` set idx" unfolding idx(3) by simp
    then obtain g where kg: "([x], g) \<in> set idx" by auto
    with g have "calculations g \<noteq> []" by auto
    with kg show "walk idx \<noteq> []" unfolding walk_def by force
  qed
  from idx(1) g w have "\<exists>idx. unique_groups all_numbers = Inr idx
         \<and> (\<forall>(k, g) \<in> set idx. calculations g \<noteq> [])
         \<and> (all_numbers \<noteq> [] \<longrightarrow> walk idx \<noteq> [])"
    by (intro exI[of _ idx] conjI)
  then show ?thesis using generate_nonempty generate_hd by (intro conjI)
qed

theorem calculations_nonempty_witness:
  "generate \<lparr>expr = ''2'', result = 2, is_singleton = True\<rparr>
            \<lparr>expr = ''3 + 1'', result = 4, is_singleton = False\<rparr> \<noteq> []
   \<and> hd (generate \<lparr>expr = ''2'', result = 2, is_singleton = True\<rparr>
                  \<lparr>expr = ''3 + 1'', result = 4, is_singleton = False\<rparr>)
       = \<lparr>expr = ''(3 + 1) + 2'', result = 6, is_singleton = False\<rparr>
   \<and> (\<exists>idx G. unique_groups [2, 2] = Inr idx \<and> ([2, 2], G) \<in> set idx
         \<and> calculations G \<noteq> [] \<and> walk idx \<noteq> [])"
proof -
  let ?a = "\<lparr>expr = ''2'', result = 2, is_singleton = True\<rparr>"
  let ?b = "\<lparr>expr = ''3 + 1'', result = 4, is_singleton = False\<rparr>"
  note t = calculations_nonempty[of ?a ?b "[2, 2]"]
  from t have g: "generate ?a ?b \<noteq> []" by blast
  from t have "hd (generate ?a ?b) =
       \<lparr>expr = paren (if result ?a < result ?b then ?b else ?a) @ '' + ''
                @ paren (if result ?a < result ?b then ?a else ?b),
        result = result ?a + result ?b, is_singleton = False\<rparr>" by blast
  then have h: "hd (generate ?a ?b) = \<lparr>expr = ''(3 + 1) + 2'', result = 6, is_singleton = False\<rparr>"
    by (simp add: paren_def)
  from t obtain idx where i: "unique_groups [2, 2] = Inr idx"
    and c: "\<forall>(k, g) \<in> set idx. calculations g \<noteq> []"
    and w: "[2, 2 :: int] \<noteq> [] \<longrightarrow> walk idx \<noteq> []" by blast
  from i obtain G where m: "([2, 2], G) \<in> set idx" unfolding index_2_2 by auto
  with c have "calculations G \<noteq> []" by blast
  moreover from w have "walk idx \<noteq> []" by simp
  ultimately have "\<exists>idx G. unique_groups [2, 2] = Inr idx \<and> ([2, 2], G) \<in> set idx
         \<and> calculations G \<noteq> [] \<and> walk idx \<noteq> []" using i m by blast
  with g h show ?thesis by (intro conjI)
qed

section \<open>Sub-tuples of a sorted tuple\<close>

lemma subseq_sorted_wrt: "subseq ys xs \<Longrightarrow> sorted_wrt P xs \<Longrightarrow> sorted_wrt P ys"
proof (induction rule: list_emb.induct)
  case (list_emb_Nil ys)
  then show ?case by simp
next
  case (list_emb_Cons xs ys y)
  then show ?case by simp
next
  case (list_emb_Cons2 x y xs ys)
  from list_emb_Cons2.hyps(2) have "set xs \<subseteq> set ys" by (rule subseq_set_subset)
  with list_emb_Cons2 show ?case by auto
qed

lemma subseq_sorted_rev:
  assumes "subseq ys xs" and "sorted (rev xs)"
  shows "sorted (rev ys)"
  using assms unfolding sorted_wrt_rev by (rule subseq_sorted_wrt)

lemma sorted_rev_mset_unique:
  assumes "sorted (rev ys)" and "sorted (rev zs)" and "mset ys = mset zs"
  shows "ys = zs"
proof -
  have "mset (rev ys) = mset (rev zs)" using assms(3) by simp
  from properties_for_sort[OF this assms(1)] have "sort (rev zs) = rev ys" .
  moreover have "sort (rev zs) = rev zs" using assms(2) by (rule sorted_sort_id)
  ultimately have "rev ys = rev zs" by simp
  then show ?thesis by simp
qed

lemma subseq_mset_subset: "subseq ys xs \<Longrightarrow> mset ys \<subseteq># mset xs"
proof (induction rule: list_emb.induct)
  case (list_emb_Nil ys)
  then show ?case by simp
next
  case (list_emb_Cons xs ys y)
  then show ?case by (auto simp: subseteq_mset_def intro: le_SucI)
next
  case (list_emb_Cons2 x y xs ys)
  then show ?case by simp
qed

lemma mset_subset_subseq: "M \<subseteq># mset xs \<Longrightarrow> \<exists>ys. subseq ys xs \<and> mset ys = M"
proof (induction xs arbitrary: M)
  case Nil
  then show ?case by simp
next
  case (Cons x xs)
  show ?case
  proof (cases "x \<in># M")
    case True
    have "M - {#x#} \<subseteq># mset xs" using Cons.prems
      by (simp add: subset_eq_diff_conv)
    from Cons.IH[OF this] obtain ys where ys: "subseq ys xs" "mset ys = M - {#x#}" by blast
    have "subseq (x # ys) (x # xs)" using ys(1) by simp
    moreover have "mset (x # ys) = M" using ys(2) True by simp
    ultimately show ?thesis by blast
  next
    case False
    have "M \<subseteq># mset xs"
    proof (rule mset_subset_eqI)
      fix a
      from Cons.prems have le: "count M a \<le> count (add_mset x (mset xs)) a"
        by (simp add: subseteq_mset_def)
      show "count M a \<le> count (mset xs) a"
      proof (cases "a = x")
        case True
        with False show ?thesis by (simp add: not_in_iff)
      next
        case False
        with le show ?thesis by simp
      qed
    qed
    from Cons.IH[OF this] obtain ys where ys: "subseq ys xs" "mset ys = M" by blast
    from ys(1) have "subseq ys (x # xs)" by (rule list_emb_Cons)
    with ys(2) show ?thesis by blast
  qed
qed


section \<open>The keys of the subset index\<close>

text \<open>
  Claim C8, as stated, fails: for the ordered sequence (1, 2, 1) the index has the two
  keys (1, 2) and (2, 1), of equal order-independent content.
\<close>

theorem index_keys_same_content:
  "\<exists>idx k1 k2. unique_groups [1, 2, 1] = Inr idx \<and> k1 \<in> fst ` set idx \<and> k2 \<in> fst ` set idx
      \<and> k1 \<noteq> k2 \<and> mset k1 = mset k2"
proof -
  from unique_groups_ok[of "[1, 2, 1]"] obtain idx where
    i: "unique_groups [1, 2, 1] = Inr idx"
    and k: "fst ` set idx = {ys. subseq ys [1, 2, 1] \<and> ys \<noteq> []}" by blast
  have a: "[1, 2] \<in> fst ` set idx" and b: "[2, 1] \<in> fst ` set idx" unfolding k by simp_all
  have c: "[1, 2] \<noteq> [2, 1 :: int]" and e: "mset [1, 2 :: int] = mset [2, 1]" by simp_all
  from i a b c e have "unique_groups [1, 2, 1] = Inr idx \<and> [1, 2] \<in> fst ` set idx
      \<and> [2, 1] \<in> fst ` set idx \<and> [1, 2] \<noteq> [2, 1 :: int] \<and> mset [1, 2 :: int] = mset [2, 1]"
    by (intro conjI)
  then show ?thesis by (intro exI)
qed

text \<open>
  Claim C8, amended. For every sequence of numbers sorted in descending order (the order
  in which the solver passes its numbers), the index is built without error and contains
  exactly one entry per distinct non-empty sub-multiset of the input: no two keys have
  equal order-independent content, and the contents of the keys are exactly the
  non-empty sub-multisets.
\<close>

theorem index_keys_unique_content:
  assumes "sorted (rev all_numbers)"
  shows "\<exists>idx. unique_groups all_numbers = Inr idx
           \<and> distinct (map (\<lambda>(k, g). mset k) idx)
           \<and> set (map (\<lambda>(k, g). mset k) idx) = {M. M \<subseteq># mset all_numbers \<and> M \<noteq> {#}}"
proof -
  from unique_groups_ok[of all_numbers] obtain idx where
    i: "unique_groups all_numbers = Inr idx" and ok: "index_ok idx"
    and k: "fst ` set idx = {ys. subseq ys all_numbers \<and> ys \<noteq> []}" by blast
  have d: "distinct (map fst idx)" using ok unfolding index_ok_def by simp
  have inj: "inj_on mset (set (map fst idx))"
  proof (rule inj_onI)
    fix ys zs assume "ys \<in> set (map fst idx)" "zs \<in> set (map fst idx)" "mset ys = mset zs"
    then have sub: "subseq ys all_numbers" "subseq zs all_numbers" using k by auto
    have "sorted (rev ys)" using sub(1) assms by (rule subseq_sorted_rev)
    moreover have "sorted (rev zs)" using sub(2) assms by (rule subseq_sorted_rev)
    ultimately show "ys = zs" using \<open>mset ys = mset zs\<close> by (rule sorted_rev_mset_unique)
  qed
  have m: "map (\<lambda>(k, g). mset k) idx = map mset (map fst idx)"
    by (simp add: case_prod_beta comp_def)
  have 1: "distinct (map (\<lambda>(k, g). mset k) idx)"
    unfolding m using d inj by (simp only: distinct_map[of mset "map fst idx"] simp_thms)
  have "mset ` fst ` set idx = {M. M \<subseteq># mset all_numbers \<and> M \<noteq> {#}}"
  proof (intro set_eqI iffI)
    fix M assume "M \<in> mset ` fst ` set idx"
    then obtain ys where "subseq ys all_numbers" "ys \<noteq> []" "M = mset ys" unfolding k by auto
    then show "M \<in> {M. M \<subseteq># mset all_numbers \<and> M \<noteq> {#}}"
      using subseq_mset_subset by auto
  next
    fix M assume "M \<in> {M. M \<subseteq># mset all_numbers \<and> M \<noteq> {#}}"
    then have M: "M \<subseteq># mset all_numbers" "M \<noteq> {#}" by auto
    from mset_subset_subseq[OF M(1)] obtain ys where ys: "subseq ys all_numbers" "mset ys = M"
      by blast
    with M(2) have "ys \<noteq> []" by auto
    with ys have "ys \<in> fst ` set idx" unfolding k by simp
    with ys(2) show "M \<in> mset ` fst ` set idx" by (intro image_eqI[of _ _ ys]) simp_all
  qed
  then have 2: "set (map (\<lambda>(k, g). mset k) idx) = {M. M \<subseteq># mset all_numbers \<and> M \<noteq> {#}}"
    unfolding m by (simp add: image_image)
  from i 1 2 show ?thesis by (intro exI[of _ idx] conjI)
qed

lemma keys_2_1_1:
  "map_sum id (map fst) (unique_groups [2, 1, 1]) = Inr [[2], [1], [2, 1], [1, 1], [2, 1, 1]]"
  by code_simp

theorem index_keys_unique_content_witness:
  "\<exists>idx. unique_groups [2, 1, 1] = Inr idx
      \<and> map fst idx = [[2], [1], [2, 1], [1, 1], [2, 1, 1]]
      \<and> distinct (map (\<lambda>(k, g). mset k) idx)
      \<and> set (map (\<lambda>(k, g). mset k) idx) = {M. M \<subseteq># mset [2, 1, 1] \<and> M \<noteq> {#}}"
proof -
  have "sorted (rev [2, 1, 1 :: int])" by simp
  from index_keys_unique_content[OF this] obtain idx where
    i: "unique_groups [2, 1, 1] = Inr idx"
    and d: "distinct (map (\<lambda>(k, g). mset k) idx)"
    and s: "set (map (\<lambda>(k, g). mset k) idx) = {M. M \<subseteq># mset [2, 1, 1] \<and> M \<noteq> {#}}"
    by blast
  from keys_2_1_1 i have "map fst idx = [[2], [1], [2, 1], [1, 1], [2, 1, 1]]" by simp
  with i d s show ?thesis by (intro exI[of _ idx] conjI)
qed

section \<open>Duplicate partition pairs\<close>

lemma partitions_3_3_2_1:
  "map_sum id (\<lambda>idx. map_option (\<lambda>G. map (\<lambda>(A, B). (group_numbers A, group_numbers B)) (partitions G))
                         (map_of idx [3, 3, 2, 1]))
     (unique_groups [3, 3, 2, 1])
   = Inr (Some [([3, 3], [2, 1]), ([3, 2], [3, 1]), ([3, 1], [3, 2]),
                ([3, 3, 2], [1]), ([3, 3, 1], [2]), ([3, 2, 1], [3])])"
  by code_simp

text \<open>
  Claim C3 on the numbers (3, 3, 2, 1): the partition pairs of the Group (3, 3, 2, 1) are,
  by their numbers, (3,3)+(2,1), (3,2)+(3,1), (3,1)+(3,2), (3,3,2)+(1), (3,3,1)+(2) and
  (3,2,1)+(3). The unordered pair of (3,2) and (3,1) is emitted twice, once in each
  order: the first half of the combinations of size 2 holds both (3,2) and (3,1), and
  the set of seen first sides does not know that (3,1) was a second side.
\<close>

theorem partition_pair_emitted_twice:
  "\<exists>idx G. unique_groups [3, 3, 2, 1] = Inr idx \<and> map_of idx [3, 3, 2, 1] = Some G
      \<and> map (\<lambda>(A, B). (group_numbers A, group_numbers B)) (partitions G)
          = [([3, 3], [2, 1]), ([3, 2], [3, 1]), ([3, 1], [3, 2]),
             ([3, 3, 2], [1]), ([3, 3, 1], [2]), ([3, 2, 1], [3])]"
proof -
  from unique_groups_ok[of "[3, 3, 2, 1]"] obtain idx where
    i: "unique_groups [3, 3, 2, 1] = Inr idx" by blast
  from partitions_3_3_2_1 have
    "map_option (\<lambda>G. map (\<lambda>(A, B). (group_numbers A, group_numbers B)) (partitions G))
        (map_of idx [3, 3, 2, 1])
     = Some [([3, 3], [2, 1]), ([3, 2], [3, 1]), ([3, 1], [3, 2]),
             ([3, 3, 2], [1]), ([3, 3, 1], [2]), ([3, 2, 1], [3])]"
    unfolding i by simp
  then obtain G where "map_of idx [3, 3, 2, 1] = Some G"
    "map (\<lambda>(A, B). (group_numbers A, group_numbers B)) (partitions G)
          = [([3, 3], [2, 1]), ([3, 2], [3, 1]), ([3, 1], [3, 2]),
             ([3, 3, 2], [1]), ([3, 3, 1], [2]), ([3, 2, 1], [3])]"
    by (cases "map_of idx [3, 3, 2, 1]") auto
  with i show ?thesis by (intro exI[of _ idx] exI[of _ G] conjI)
qed

section \<open>The search when no difference is within the target\<close>

text \<open>What the loop of the search returns on any list of Calculations: the least of the
  target and all the differences, and the Calculations at exactly that difference, in
  the order of the walk.\<close>

lemma fold_min_le: "fold min ds (a :: int) \<le> a"
proof (induction ds arbitrary: a)
  case Nil
  then show ?case by simp
next
  case (Cons d ds)
  have "fold min ds (min d a) \<le> min d a" by (rule Cons.IH)
  then show ?case by simp
qed

lemma search_fold:
  "fold (search_step target) calcs (m, best) =
     (fold min (map (\<lambda>c. \<bar>result c - target\<bar>) calcs) m,
      (if fold min (map (\<lambda>c. \<bar>result c - target\<bar>) calcs) m = m then best else [])
      @ filter (\<lambda>c. \<bar>result c - target\<bar> = fold min (map (\<lambda>c. \<bar>result c - target\<bar>) calcs) m) calcs)"
proof (induction calcs arbitrary: m best)
  case Nil
  then show ?case by simp
next
  case (Cons x calcs)
  let ?d = "\<lambda>c. \<bar>result c - target\<bar>"
  consider "?d x < m" | "?d x = m" | "m < ?d x" by linarith
  then show ?case
  proof cases
    case 1
    then have s: "search_step target x (m, best) = (?d x, [x])"
      by (simp add: search_step_def Let_def)
    have mn: "min (?d x) m = ?d x" using 1 by simp
    have "fold min (map ?d calcs) (?d x) \<le> ?d x" by (rule fold_min_le)
    with 1 have ne: "fold min (map ?d calcs) (?d x) \<noteq> m" by simp
    show ?thesis using Cons.IH[of "?d x" "[x]"] ne
      by (simp add: s mn)
  next
    case 2
    then have s: "search_step target x (m, best) = (m, best @ [x])"
      by (simp add: search_step_def Let_def)
    have mn: "min (?d x) m = m" using 2 by simp
    show ?thesis using Cons.IH[of m "best @ [x]"] 2
      by (simp add: s mn)
  next
    case 3
    then have s: "search_step target x (m, best) = (m, best)"
      by (simp add: search_step_def Let_def)
    have mn: "min (?d x) m = m" using 3 by simp
    have "fold min (map ?d calcs) m \<le> m" by (rule fold_min_le)
    with 3 have ne: "?d x \<noteq> fold min (map ?d calcs) m" by simp
    show ?thesis using Cons.IH[of m best] ne
      by (simp add: s mn)
  qed
qed

lemma search_result:
  "search target calcs =
     (fold min (map (\<lambda>c. \<bar>result c - target\<bar>) calcs) target,
      filter (\<lambda>c. \<bar>result c - target\<bar> = fold min (map (\<lambda>c. \<bar>result c - target\<bar>) calcs) target) calcs)"
  unfolding search_def search_fold by simp

lemma walk_ones:
  "map_sum id (\<lambda>idx. (list_all (\<lambda>c. 1 \<le> \<bar>result c - 0\<bar>) (walk idx),
                       filter (\<lambda>c. \<bar>result c - 0\<bar> = 1) (take 1 (walk idx))))
     (unique_groups (rev (sort [1, 1, 1, 1, 1, 1])))
   = Inr (True, [\<lparr>expr = ''1'', result = 1, is_singleton = True\<rparr>])"
  by code_simp

lemma solve_0_ones: "countdown_solver 0 [1, 1, 1, 1, 1, 1] = Inr (0, [])"
  by code_simp

text \<open>
  Claim C1 on the target 0 and the numbers (1, 1, 1, 1, 1, 1): the search returns the
  difference 0 and retains nothing, although the walk yields the Calculation "1" at
  difference 1 and none at a smaller difference. The running minimum starts at the
  target, so a Calculation is retained only if its difference is at most the target.
\<close>

theorem search_misses_minimum:
  "countdown_solver 0 [1, 1, 1, 1, 1, 1] = Inr (0, [])
   \<and> (\<exists>idx. unique_groups (rev (sort [1, 1, 1, 1, 1, 1])) = Inr idx
         \<and> list_all (\<lambda>c. 1 \<le> \<bar>result c - 0\<bar>) (walk idx)
         \<and> \<lparr>expr = ''1'', result = 1, is_singleton = True\<rparr> \<in> set (walk idx))"
proof -
  let ?c = "\<lparr>expr = ''1'', result = 1, is_singleton = True\<rparr>"
  from unique_groups_ok[of "rev (sort [1, 1, 1, 1, 1, 1])"] obtain idx where
    i: "unique_groups (rev (sort [1, 1, 1, 1, 1, 1])) = Inr idx" by blast
  from walk_ones have a: "list_all (\<lambda>c. 1 \<le> \<bar>result c - 0\<bar>) (walk idx)"
    and f: "filter (\<lambda>c. \<bar>result c - 0\<bar> = 1) (take 1 (walk idx)) = [?c]"
    unfolding i by simp_all
  from f have "?c \<in> set (filter (\<lambda>c. \<bar>result c - 0\<bar> = 1) (take 1 (walk idx)))" by simp
  then have "?c \<in> set (take 1 (walk idx))" by simp
  then have b: "?c \<in> set (walk idx)" by (rule in_set_takeD)
  from i a b have "\<exists>idx. unique_groups (rev (sort [1, 1, 1, 1, 1, 1])) = Inr idx
         \<and> list_all (\<lambda>c. 1 \<le> \<bar>result c - 0\<bar>) (walk idx)
         \<and> ?c \<in> set (walk idx)" by (intro exI[of _ idx] conjI)
  with solve_0_ones show ?thesis by (intro conjI)
qed

section \<open>The half binomial coefficient\<close>

lemma halfbinom_pairs:
  "zip (rev [n + 1 - int K..n]) [1..int K] = map (\<lambda>j. (n + 1 - j, j)) [1..int K]"
proof (induction K)
  case 0
  then show ?case by simp
next
  case (Suc K)
  have a: "[1..int (Suc K)] = [1..int K] @ [int K + 1]"
    using upto_rec2[of 1 "int K + 1"] by (simp add: add.commute)
  have b: "[n + 1 - int (Suc K)..n] = (n - int K) # [n + 1 - int K..n]"
    using upto_rec1[of "n - int K" n] by (simp add: algebra_simps)
  have len: "length (rev [n + 1 - int K..n]) = length [1..int K]" by simp
  show ?case
    unfolding a b using Suc.IH len by (simp add: algebra_simps)
qed

lemma binomial_step:
  assumes "K < N"
  shows "int (N choose K) * (int N - int K) = (int K + 1) * int (N choose Suc K)"
proof -
  have "Suc K * (N choose Suc K) = (N - K) * (N choose K)"
    using binomial_absorption[of K N] binomial_absorb_comp[of N K] by simp
  then have "int (Suc K * (N choose Suc K)) = int ((N - K) * (N choose K))" by simp
  then show ?thesis using assms by (simp add: of_nat_diff algebra_simps)
qed

lemma halfbinom_prefix:
  "K \<le> N \<Longrightarrow>
   fold (\<lambda>(m, l) prod. (prod * m) div l) (map (\<lambda>j. (int N + 1 - j, j)) [1..int K]) 1
     = int (N choose K)"
proof (induction K)
  case 0
  then show ?case by simp
next
  case (Suc K)
  then have lt: "K < N" and le: "K \<le> N" by simp_all
  have a: "[1..int (Suc K)] = [1..int K] @ [int K + 1]"
    using upto_rec2[of 1 "int K + 1"] by (simp add: add.commute)
  have "(int (N choose K) * (int N + 1 - (int K + 1))) div (int K + 1) = int (N choose Suc K)"
    using binomial_step[OF lt] by simp
  with Suc.IH[OF le] show ?case unfolding a by simp
qed


lemma halfbinom_loop_value:
  assumes "0 \<le> k" and "k \<le> n"
  shows "halfbinom_loop n k = int (nat n choose nat k)"
proof -
  have k: "k = int (nat k)" and n: "n = int (nat n)" using assms by simp_all
  have le: "nat k \<le> nat n" using assms by simp
  have "halfbinom_loop n k
      = fold (\<lambda>(m, l) prod. (prod * m) div l) (zip (rev [n + 1 - int (nat k)..n]) [1..int (nat k)]) 1"
    unfolding halfbinom_loop_def using k by simp
  also have "\<dots> = fold (\<lambda>(m, l) prod. (prod * m) div l)
                     (map (\<lambda>j. (int (nat n) + 1 - j, j)) [1..int (nat k)]) 1"
    unfolding halfbinom_pairs using n by simp
  also have "\<dots> = int (nat n choose nat k)" using le by (rule halfbinom_prefix)
  finally show ?thesis .
qed

lemma halfbinom_pairs_take:
  assumes "j \<le> K"
  shows "take j (zip (rev [n + 1 - int K..n]) [1..int K]) = map (\<lambda>j. (n + 1 - j, j)) [1..int j]"
proof -
  have "[1..int K] = [1..int j] @ [int j + 1..int K]"
  proof (cases "j = K")
    case True
    then show ?thesis by simp
  next
    case False
    with assms have "(1 :: int) \<le> int j + 1" "int j + 1 \<le> int K" by simp_all
    from upto_split1[OF this] show ?thesis by simp
  qed
  moreover have "length [1..int j] = j" by simp
  ultimately show ?thesis unfolding halfbinom_pairs by (simp add: take_map)
qed

lemma halfbinom_pairs_nth:
  assumes "j < K"
  shows "zip (rev [n + 1 - int K..n]) [1..int K] ! j = (n - int j, int j + 1)"
proof -
  have "j < length [1..int K]" using assms by simp
  moreover have "[1..int K] ! j = 1 + int j" using assms by (simp add: nth_upto)
  ultimately show ?thesis unfolding halfbinom_pairs by (simp add: algebra_simps)
qed

lemma halfbinom_loop_exact:
  "(odd n \<longrightarrow> halfbinom n k = None)
   \<and> (even n \<and> 2 \<le> n \<and> 1 \<le> k \<and> k \<le> n \<longrightarrow>
        halfbinom n k = Some (int (nat n choose nat k) div 2)
      \<and> (\<forall>j < nat k.
            fold (\<lambda>(m, l) prod. (prod * m) div l) (take j (zip (rev [n + 1 - k..n]) [1..k])) 1
              = int (nat n choose j)
          \<and> snd (zip (rev [n + 1 - k..n]) [1..k] ! j) dvd
              fold (\<lambda>(m, l) prod. (prod * m) div l) (take j (zip (rev [n + 1 - k..n]) [1..k])) 1
                * fst (zip (rev [n + 1 - k..n]) [1..k] ! j)))"
proof (intro conjI impI)
  assume "odd n"
  then have "n mod 2 = 1" by presburger
  then show "halfbinom n k = None" by (simp add: halfbinom_def)
next
  assume a: "even n \<and> 2 \<le> n \<and> 1 \<le> k \<and> k \<le> n"
  then have "n mod 2 \<noteq> 1" by presburger
  then show "halfbinom n k = Some (int (nat n choose nat k) div 2)"
    using a by (simp add: halfbinom_def halfbinom_loop_value)
next
  assume a: "even n \<and> 2 \<le> n \<and> 1 \<le> k \<and> k \<le> n"
  then have b: "2 \<le> n" "1 \<le> k" "k \<le> n" by blast+
  then have k: "k = int (nat k)" and n: "n = int (nat n)" and kn: "nat k \<le> nat n" by simp_all
  show "\<forall>j < nat k.
            fold (\<lambda>(m, l) prod. (prod * m) div l) (take j (zip (rev [n + 1 - k..n]) [1..k])) 1
              = int (nat n choose j)
          \<and> snd (zip (rev [n + 1 - k..n]) [1..k] ! j) dvd
              fold (\<lambda>(m, l) prod. (prod * m) div l) (take j (zip (rev [n + 1 - k..n]) [1..k])) 1
                * fst (zip (rev [n + 1 - k..n]) [1..k] ! j)"
  proof (intro allI impI)
    fix j assume j: "j < nat k"
    then have jn: "j < nat n" "j \<le> nat n" "j \<le> nat k" using kn by simp_all
    have t: "take j (zip (rev [n + 1 - k..n]) [1..k]) = map (\<lambda>j. (int (nat n) + 1 - j, j)) [1..int j]"
      using halfbinom_pairs_take[OF jn(3), of n] k n by simp
    have p: "fold (\<lambda>(m, l) prod. (prod * m) div l) (take j (zip (rev [n + 1 - k..n]) [1..k])) 1
              = int (nat n choose j)"
      unfolding t using jn(2) by (rule halfbinom_prefix)
    have e: "zip (rev [n + 1 - k..n]) [1..k] ! j = (n - int j, int j + 1)"
      using halfbinom_pairs_nth[OF j, of n] k by simp
    have "int j + 1 dvd int (nat n choose j) * (int (nat n) - int j)"
      using binomial_step[OF jn(1)] by simp
    then have d: "snd (zip (rev [n + 1 - k..n]) [1..k] ! j) dvd
              fold (\<lambda>(m, l) prod. (prod * m) div l) (take j (zip (rev [n + 1 - k..n]) [1..k])) 1
                * fst (zip (rev [n + 1 - k..n]) [1..k] ! j)"
      unfolding p e using n by simp
    from p d show "fold (\<lambda>(m, l) prod. (prod * m) div l) (take j (zip (rev [n + 1 - k..n]) [1..k])) 1
              = int (nat n choose j)
          \<and> snd (zip (rev [n + 1 - k..n]) [1..k] ! j) dvd
              fold (\<lambda>(m, l) prod. (prod * m) div l) (take j (zip (rev [n + 1 - k..n]) [1..k])) 1
                * fst (zip (rev [n + 1 - k..n]) [1..k] ! j)" by (intro conjI)
  qed
qed

subsection \<open>The memo\<close>

lemma halfbinom_cached_hit:
  assumes "memo_ok cache" and "(n, k) \<in> fst ` set cache"
  shows "halfbinom_cached cache n k
           = (halfbinom n k, ((n, k), halfbinom n k) # filter (\<lambda>(key, r'). key \<noteq> (n, k)) cache, False)"
proof -
  from assms(2) obtain r where r: "map_of cache (n, k) = Some r"
    by (metis domD dom_map_of_conv_image_fst)
  then have "((n, k), r) \<in> set cache" by (rule map_of_SomeD)
  with assms(1) have "r = halfbinom n k" unfolding memo_ok_def list_all_iff by auto
  with r show ?thesis by (simp add: halfbinom_cached_def)
qed

lemma halfbinom_cached_miss:
  assumes "(n, k) \<notin> fst ` set cache"
  shows "halfbinom_cached cache n k
           = (halfbinom n k, take lru_maxsize (((n, k), halfbinom n k) # cache), True)"
proof -
  from assms have "map_of cache (n, k) = None" by (simp add: map_of_eq_None_iff)
  then show ?thesis by (simp add: halfbinom_cached_def Let_def)
qed

lemma memo_ok_take:
  assumes "memo_ok cache"
  shows "memo_ok (take m cache)"
proof -
  have "distinct (take m (map fst cache))" using assms unfolding memo_ok_def by simp
  then have "distinct (map fst (take m cache))" by (simp only: take_map)
  moreover have "set (take m cache) \<subseteq> set cache" by (rule set_take_subset)
  then have "list_all (\<lambda>((n, k), r). r = halfbinom n k) (take m cache)"
    using assms unfolding memo_ok_def list_all_iff by blast
  ultimately show ?thesis unfolding memo_ok_def by simp
qed

lemma memo_ok_hit:
  assumes "memo_ok cache"
  shows "memo_ok (((n, k), halfbinom n k) # filter (\<lambda>(key, r'). key \<noteq> (n, k)) cache)"
proof -
  have "distinct (map fst (filter (\<lambda>(key, r'). key \<noteq> (n, k)) cache))"
    using assms unfolding memo_ok_def by (simp add: distinct_map_filter)
  moreover have "(n, k) \<notin> fst ` set (filter (\<lambda>(key, r'). key \<noteq> (n, k)) cache)" by auto
  moreover have "list_all (\<lambda>((n, k), r). r = halfbinom n k) (filter (\<lambda>(key, r'). key \<noteq> (n, k)) cache)"
    using assms unfolding memo_ok_def list_all_iff by auto
  ultimately show ?thesis unfolding memo_ok_def by simp
qed

lemma keys_hit:
  assumes "(n, k) \<in> fst ` set cache"
  shows "fst ` set (((n, k), r) # filter (\<lambda>(key, r'). key \<noteq> (n, k)) cache) = fst ` set cache"
  using assms by force

lemma memo_ok_miss:
  assumes "memo_ok cache" and "(n, k) \<notin> fst ` set cache"
  shows "memo_ok (((n, k), halfbinom n k) # cache)"
  using assms unfolding memo_ok_def by simp

lemma halfbinom_calls_values:
  "memo_ok cache \<Longrightarrow> map fst (halfbinom_calls cache calls) = map (\<lambda>(n, k). halfbinom n k) calls"
proof (induction calls arbitrary: cache)
  case Nil
  then show ?case by simp
next
  case (Cons c calls)
  obtain n k where c: "c = (n, k)" by (cases c)
  show ?case
  proof (cases "(n, k) \<in> fst ` set cache")
    case True
    from Cons.IH[OF memo_ok_hit[OF Cons.prems, of n k]]
    show ?thesis unfolding c by (simp add: halfbinom_cached_hit[OF Cons.prems True])
  next
    case False
    have "memo_ok (take lru_maxsize (((n, k), halfbinom n k) # cache))"
      using memo_ok_miss[OF Cons.prems False] by (rule memo_ok_take)
    from Cons.IH[OF this]
    show ?thesis unfolding c by (simp add: halfbinom_cached_miss[OF False])
  qed
qed


lemma times_computed_Nil: "times_computed p cache [] = 0"
  by (simp add: times_computed_def)

lemma times_computed_hit:
  assumes "memo_ok cache" and "(n, k) \<in> fst ` set cache"
  shows "times_computed p cache ((n, k) # calls)
           = times_computed p (((n, k), halfbinom n k) # filter (\<lambda>(key, r'). key \<noteq> (n, k)) cache) calls"
  by (simp add: times_computed_def halfbinom_cached_hit[OF assms])

lemma times_computed_miss:
  assumes "(n, k) \<notin> fst ` set cache"
  shows "times_computed p cache ((n, k) # calls)
           = (if p = (n, k) then 1 else 0)
             + times_computed p (take lru_maxsize (((n, k), halfbinom n k) # cache)) calls"
  by (simp add: times_computed_def halfbinom_cached_miss[OF assms])

lemma memo_length: "memo_ok cache \<Longrightarrow> length cache = card (fst ` set cache)"
proof -
  assume "memo_ok cache"
  then have "distinct (map fst cache)" unfolding memo_ok_def by simp
  then have "card (set (map fst cache)) = length (map fst cache)" by (rule distinct_card)
  then show ?thesis by simp
qed

lemma computed_once_from:
  assumes "memo_ok cache" and "card (fst ` set cache \<union> set calls) \<le> lru_maxsize"
  shows "times_computed p cache calls = (if p \<in> set calls \<and> p \<notin> fst ` set cache then 1 else 0)"
  using assms
proof (induction calls arbitrary: cache)
  case Nil
  then show ?case by (simp add: times_computed_Nil)
next
  case (Cons c calls)
  obtain n k where c: "c = (n, k)" by (cases c)
  have fin: "finite (fst ` set cache \<union> set (c # calls))" by simp
  show ?case
  proof (cases "(n, k) \<in> fst ` set cache")
    case True
    let ?cache = "((n, k), halfbinom n k) # filter (\<lambda>(key, r'). key \<noteq> (n, k)) cache"
    have keys: "fst ` set ?cache = fst ` set cache" using True by (rule keys_hit)
    have ok: "memo_ok ?cache" using Cons.prems(1) by (rule memo_ok_hit)
    have "fst ` set ?cache \<union> set calls \<subseteq> fst ` set cache \<union> set (c # calls)"
      unfolding keys by auto
    then have "card (fst ` set ?cache \<union> set calls) \<le> card (fst ` set cache \<union> set (c # calls))"
      using fin by (rule card_mono[rotated])
    with Cons.prems(2) have le: "card (fst ` set ?cache \<union> set calls) \<le> lru_maxsize" by simp
    from Cons.IH[OF ok le] have
      "times_computed p ?cache calls = (if p \<in> set calls \<and> p \<notin> fst ` set cache then 1 else 0)"
      unfolding keys .
    then show ?thesis
      unfolding c times_computed_hit[OF Cons.prems(1) True] using True by auto
  next
    case False
    let ?new = "((n, k), halfbinom n k) # cache"
    have ok: "memo_ok ?new" using Cons.prems(1) False by (rule memo_ok_miss)
    have keys: "fst ` set ?new = insert (n, k) (fst ` set cache)" by simp
    have "fst ` set ?new \<subseteq> fst ` set cache \<union> set (c # calls)" unfolding c by auto
    then have "card (fst ` set ?new) \<le> card (fst ` set cache \<union> set (c # calls))"
      using fin by (rule card_mono[rotated])
    with Cons.prems(2) have "length ?new \<le> lru_maxsize"
      using memo_length[OF ok] by simp
    then have t: "take lru_maxsize ?new = ?new" by simp
    have "fst ` set ?new \<union> set calls = fst ` set cache \<union> set (c # calls)"
      unfolding c by auto
    with Cons.prems(2) have le: "card (fst ` set ?new \<union> set calls) \<le> lru_maxsize" by simp
    from Cons.IH[OF ok le] have
      "times_computed p ?new calls
         = (if p \<in> set calls \<and> p \<notin> insert (n, k) (fst ` set cache) then 1 else 0)"
      unfolding keys .
    then show ?thesis
      unfolding c times_computed_miss[OF False] t using False by auto
  qed
qed

lemma memo_ok_Nil: "memo_ok []"
  by (simp add: memo_ok_def)

text \<open>
  Claim C5, as stated, fails in its last part: the memo of \<^verbatim>\<open>lru_cache()\<close> holds 128
  entries. After the 129 distinct pairs \<open>(3, 1), (5, 2), \<dots>, (259, 129)\<close> the entry of
  \<open>(3, 1)\<close>, the least recently used, has been dropped, and one more call of
  \<open>halfbinom 3 1\<close> runs the body again: the pair \<open>(3, 1)\<close> is computed twice.
\<close>

theorem memo_recomputes:
  "times_computed (3, 1) []
     (map (\<lambda>s. (s, s div 2)) (map (\<lambda>i. 2 * i + 1) [1..129]) @ [(3, 1)]) = 2"
  by code_simp

text \<open>
  Claim C5, amended. For every odd \<open>n\<close>, \<open>halfbinom n k\<close> is \<^verbatim>\<open>None\<close>. For every even
  \<open>n \<ge> 2\<close> and every \<open>k\<close> with \<open>1 \<le> k \<le> n\<close> it is the binomial coefficient \<open>C(n, k)\<close>
  halved by integer division, and the product loop is exact: before step \<open>j + 1\<close> the
  running product is \<open>C(n, j)\<close>, and the divisor \<open>l\<close> of that step divides the product
  times its factor \<open>m\<close>. Through the memo every call returns what the body returns, and
  in a run of calls with at most 128 distinct pairs (the size of the memo; a solve calls
  only the pairs \<open>(s, s div 2)\<close> for the sizes \<open>s\<close> of its groups) every distinct pair is
  computed exactly once.
\<close>

theorem halfbinom_value:
  "(odd n \<longrightarrow> halfbinom n k = None)
   \<and> (even n \<and> 2 \<le> n \<and> 1 \<le> k \<and> k \<le> n \<longrightarrow>
        halfbinom n k = Some (int (nat n choose nat k) div 2)
      \<and> (\<forall>j < nat k.
            fold (\<lambda>(m, l) prod. (prod * m) div l) (take j (zip (rev [n + 1 - k..n]) [1..k])) 1
              = int (nat n choose j)
          \<and> snd (zip (rev [n + 1 - k..n]) [1..k] ! j) dvd
              fold (\<lambda>(m, l) prod. (prod * m) div l) (take j (zip (rev [n + 1 - k..n]) [1..k])) 1
                * fst (zip (rev [n + 1 - k..n]) [1..k] ! j)))
   \<and> map fst (halfbinom_calls [] calls) = map (\<lambda>(n, k). halfbinom n k) calls
   \<and> (card (set calls) \<le> lru_maxsize \<longrightarrow> (\<forall>p \<in> set calls. times_computed p [] calls = 1))"
proof -
  have v: "map fst (halfbinom_calls [] calls) = map (\<lambda>(n, k). halfbinom n k) calls"
    using memo_ok_Nil by (rule halfbinom_calls_values)
  have m: "card (set calls) \<le> lru_maxsize \<longrightarrow> (\<forall>p \<in> set calls. times_computed p [] calls = 1)"
  proof (intro impI ballI)
    fix p assume c: "card (set calls) \<le> lru_maxsize" and p: "p \<in> set calls"
    from c have "card (fst ` set ([] :: memo) \<union> set calls) \<le> lru_maxsize" by simp
    from computed_once_from[OF memo_ok_Nil this, of p] p
    show "times_computed p [] calls = 1" by simp
  qed
  from halfbinom_loop_exact[of n k] v m show ?thesis by (intro conjI) blast+
qed

lemma choose_4_2: "(4 :: nat) choose 2 = 6"
  by code_simp

lemma memo_run:
  "halfbinom_calls [] [(4, 2), (6, 3), (4, 2)] = [(Some 3, True), (Some 10, True), (Some 3, False)]"
  by code_simp

theorem halfbinom_value_witness:
  "halfbinom 4 2 = Some 3 \<and> halfbinom 3 1 = None
   \<and> fold (\<lambda>(m, l) prod. (prod * m) div l) (take 1 (zip (rev [4 + 1 - 2..4]) [1..2])) 1 = int (4 choose 1)
   \<and> snd (zip (rev [4 + 1 - 2..4]) [1..2] ! 1) dvd
        fold (\<lambda>(m, l) prod. (prod * m) div l) (take 1 (zip (rev [4 + 1 - 2..4]) [1..2])) 1
          * fst (zip (rev [4 + 1 - 2..4]) [1..2] ! 1)
   \<and> halfbinom_calls [] [(4, 2), (6, 3), (4, 2)] = [(Some 3, True), (Some 10, True), (Some 3, False)]
   \<and> times_computed (4, 2) [] [(4, 2), (6, 3), (4, 2)] = 1
   \<and> times_computed (6, 3) [] [(4, 2), (6, 3), (4, 2)] = 1"
proof -
  note t = halfbinom_value[of 4 2 "[(4, 2), (6, 3), (4, 2)]"]
  have c: "even (4 :: int) \<and> (2 :: int) \<le> 4 \<and> (1 :: int) \<le> 2 \<and> (2 :: int) \<le> 4" by simp
  from t c have "halfbinom 4 2 = Some (int (nat 4 choose nat 2) div 2)" by blast
  then have a: "halfbinom 4 2 = Some 3" by (simp add: choose_4_2)
  from halfbinom_value[of 3 1 "[]"] have b: "halfbinom 3 1 = None" by simp
  have "(1 :: nat) < nat 2" by simp
  with t c have "fold (\<lambda>(m, l) prod. (prod * m) div l) (take 1 (zip (rev [4 + 1 - 2..4]) [1..2])) 1
              = int (nat 4 choose 1)
          \<and> snd (zip (rev [4 + 1 - 2..4]) [1..2] ! 1) dvd
              fold (\<lambda>(m, l) prod. (prod * m) div l) (take 1 (zip (rev [4 + 1 - 2..4]) [1..2])) 1
                * fst (zip (rev [4 + 1 - 2..4]) [1..2] ! 1)" by blast
  then have d: "fold (\<lambda>(m, l) prod. (prod * m) div l) (take 1 (zip (rev [4 + 1 - 2..4]) [1..2])) 1
              = int (4 choose 1)
          \<and> snd (zip (rev [4 + 1 - 2..4]) [1..2] ! 1) dvd
              fold (\<lambda>(m, l) prod. (prod * m) div l) (take 1 (zip (rev [4 + 1 - 2..4]) [1..2])) 1
                * fst (zip (rev [4 + 1 - 2..4]) [1..2] ! 1)" by simp
  have "card (set [(4, 2), (6, 3), (4 :: int, 2 :: int)]) \<le> lru_maxsize"
    by (simp add: lru_maxsize_def card_insert_if)
  with t have e: "\<forall>p \<in> set [(4, 2), (6, 3), (4, 2)]. times_computed p [] [(4, 2), (6, 3), (4, 2)] = 1"
    by blast
  from e have e1: "times_computed (4, 2) [] [(4, 2), (6, 3), (4, 2)] = 1"
    and e2: "times_computed (6, 3) [] [(4, 2), (6, 3), (4, 2)] = 1" by simp_all
  from a b d memo_run e1 e2 show ?thesis by (intro conjI) blast+
qed

section \<open>The order of the input numbers\<close>

lemma sort_cong: "mset p = mset q \<Longrightarrow> sort p = sort (q :: int list)"
  by (rule properties_for_sort) simp_all

lemma walk_2_2_3_1:
  "map_sum id (\<lambda>idx. filter (\<lambda>c. expr c = ''(2 + 2) + (3 + 1)'') (walk idx))
     (unique_groups [2, 2, 3, 1])
   = Inr [\<lparr>expr = ''(2 + 2) + (3 + 1)'', result = 8, is_singleton = False\<rparr>]"
  by code_simp

lemma walk_3_2_2_1:
  "map_sum id (\<lambda>idx. filter (\<lambda>c. expr c = ''(2 + 2) + (3 + 1)'') (walk idx))
     (unique_groups (rev (sort [2, 2, 3, 1])))
   = Inr []"
  by code_simp

text \<open>
  Claim C6, as stated, fails: the index built from the unsorted tuple (2, 2, 3, 1) yields
  the Calculation "(2 + 2) + (3 + 1)", which the index built from the sorted tuple
  (3, 2, 2, 1) does not yield (there the same sum is written "(3 + 1) + (2 + 2)"): sorting
  changes which Calculations are produced, not only their order.
\<close>

theorem sorting_changes_calculations:
  "\<exists>idx idx' c. unique_groups [2, 2, 3, 1] = Inr idx
      \<and> unique_groups (rev (sort [2, 2, 3, 1])) = Inr idx'
      \<and> c \<in> set (walk idx) \<and> c \<notin> set (walk idx')"
proof -
  let ?c = "\<lparr>expr = ''(2 + 2) + (3 + 1)'', result = 8, is_singleton = False\<rparr>"
  from unique_groups_ok[of "[2, 2, 3, 1]"] obtain idx where
    i: "unique_groups [2, 2, 3, 1] = Inr idx" by blast
  from unique_groups_ok[of "rev (sort [2, 2, 3, 1])"] obtain idx' where
    i': "unique_groups (rev (sort [2, 2, 3, 1])) = Inr idx'" by blast
  from walk_2_2_3_1 have "filter (\<lambda>c. expr c = ''(2 + 2) + (3 + 1)'') (walk idx) = [?c]"
    unfolding i by simp
  then have "?c \<in> set (filter (\<lambda>c. expr c = ''(2 + 2) + (3 + 1)'') (walk idx))" by simp
  then have a: "?c \<in> set (walk idx)" by simp
  from walk_3_2_2_1 have "filter (\<lambda>c. expr c = ''(2 + 2) + (3 + 1)'') (walk idx') = []"
    unfolding i' by simp
  then have b: "?c \<notin> set (walk idx')" by (auto simp: filter_empty_conv)
  from i i' a b have "unique_groups [2, 2, 3, 1] = Inr idx
      \<and> unique_groups (rev (sort [2, 2, 3, 1])) = Inr idx'
      \<and> ?c \<in> set (walk idx) \<and> ?c \<notin> set (walk idx')" by (intro conjI)
  then show ?thesis by (intro exI)
qed

subsection \<open>The candidates of a group cover every split\<close>

text \<open>The sizes from the half upwards are enumerated in full, except the half of an even
  size, where the limit keeps the combinations that hold the first number: their count
  is half the central binomial coefficient.\<close>

lemma length_combinations: "length (combinations xs m) = length xs choose m"
  by (induction xs m rule: combinations.induct) simp_all

lemma enumerate_until_take:
  "cnt \<le> l \<Longrightarrow> enumerate_until (Some l) cnt xs = take (nat (l - cnt + 1)) xs"
proof (induction xs arbitrary: cnt)
  case Nil
  then show ?case by simp
next
  case (Cons x xs)
  show ?case
  proof (cases "cnt = l")
    case True
    then show ?thesis by simp
  next
    case False
    with Cons.prems have le: "cnt + 1 \<le> l" by simp
    have n: "nat (l - cnt + 1) = Suc (nat (l - (cnt + 1) + 1))" using le by linarith
    have "enumerate_until (Some l) cnt (x # xs) = x # enumerate_until (Some l) (cnt + 1) xs"
      using False by simp
    also have "\<dots> = x # take (nat (l - (cnt + 1) + 1)) xs"
      using Cons.IH[OF le] by (simp only:)
    also have "\<dots> = take (Suc (nat (l - (cnt + 1) + 1))) (x # xs)" by (simp only: take_Suc_Cons)
    finally show ?thesis unfolding n .
  qed
qed

lemma central_binomial_half:
  assumes "0 < t"
  shows "(2 * t choose t) div 2 = (2 * t - 1 choose (t - 1))"
proof -
  obtain u where t: "t = Suc u" using assms by (cases t) auto
  have "(2 * t choose t) = (Suc (2 * u + 1) choose Suc u)" unfolding t by simp
  also have "\<dots> = (2 * u + 1 choose u) + (2 * u + 1 choose Suc u)" by (rule binomial_Suc_Suc)
  also have "(2 * u + 1 choose Suc u) = (2 * u + 1 choose u)"
    using binomial_symmetric[of u "2 * u + 1"] by simp
  finally have "(2 * t choose t) = 2 * (2 * u + 1 choose u)" by simp
  then show ?thesis unfolding t by simp
qed


lemma candidates_eq:
  assumes "2 \<le> length numbers"
  shows "all_paired_combinations numbers
            (zip_longest [(length numbers + 1) div 2..<length numbers] [h])
         = Inr (paired_combinations numbers ((length numbers + 1) div 2) h
                @ concat (map (\<lambda>m. paired_combinations numbers m None)
                              [Suc ((length numbers + 1) div 2)..<length numbers]))"
proof -
  let ?s = "length numbers"
  let ?m = "(?s + 1) div 2"
  have lt: "?m < ?s" using assms by arith
  have r: "[?m..<?s] = ?m # [Suc ?m..<?s]" using lt by (rule upt_conv_Cons)
  let ?ms = "(?m, Some h) # map (\<lambda>m. (m, None)) [Suc ?m..<?s]"
  have z: "zip_longest [?m..<?s] [h] = map (\<lambda>(m, l). (Some m, l)) ?ms"
    unfolding r by (simp add: zip_longest_Nil2 comp_def)
  have "all_paired_combinations numbers (zip_longest [?m..<?s] [h])
          = Inr (concat (map (\<lambda>(m, l). paired_combinations numbers m (case l of None \<Rightarrow> None | Some l \<Rightarrow> l)) ?ms))"
    unfolding z by (rule all_paired_combinations_Some)
  also have "concat (map (\<lambda>(m, l). paired_combinations numbers m (case l of None \<Rightarrow> None | Some l \<Rightarrow> l)) ?ms)
          = paired_combinations numbers ?m h
            @ concat (map (\<lambda>m. paired_combinations numbers m None) [Suc ?m..<?s])"
    by (simp add: comp_def)
  finally show ?thesis .
qed

lemma paired_combinations_None:
  "paired_combinations numbers m None
     = map (\<lambda>numbers1. (numbers1, filtering numbers numbers1)) (combinations numbers m)"
  by (simp add: paired_combinations_def enumerate_until_None)

lemma paired_combinations_half:
  assumes "0 < t" and "length (x # xs) = 2 * t"
  shows "paired_combinations (x # xs) t (halfbinom (int (2 * t)) (int (2 * t) div 2))
     = map (\<lambda>numbers1. (numbers1, filtering (x # xs) numbers1))
           (map ((#) x) (combinations xs (t - 1)))"
proof -
  obtain u where t: "t = Suc u" using assms(1) by (cases t) auto
  have len: "length xs = 2 * u + 1" using assms(2) t by simp
  have d: "int (2 * t) div 2 = int t" by simp
  have nm: "(int (2 * t)) mod 2 \<noteq> 1" by presburger
  have h: "halfbinom (int (2 * t)) (int (2 * t) div 2)
           = Some (int (2 * t choose t) div 2)"
  proof -
    have n: "nat (2 * int t) = 2 * t" by simp
    from halfbinom_loop_value[of "int t" "int (2 * t)"]
    have "halfbinom_loop (int (2 * t)) (int t) = int (2 * t choose t)" by (simp add: n)
    with nm show ?thesis unfolding d by (simp add: halfbinom_def)
  qed
  have "int (2 * t choose t) div 2 = int ((2 * t choose t) div 2)" by (simp add: zdiv_int)
  also have "\<dots> = int (2 * t - 1 choose (t - 1))"
    using central_binomial_half[OF assms(1)] by simp
  finally have h': "halfbinom (int (2 * t)) (int (2 * t) div 2) = Some (int (2 * t - 1 choose (t - 1)))"
    using h by simp
  have "t - 1 \<le> 2 * t - 1" by arith
  then have pos: "0 < (2 * t - 1 choose (t - 1))" by (rule zero_less_binomial)
  then have one: "(1 :: int) \<le> int (2 * t - 1 choose (t - 1))" by linarith
  have c: "combinations (x # xs) t
             = map ((#) x) (combinations xs (t - 1)) @ combinations xs t"
    unfolding t by simp
  have l: "length (map ((#) x) (combinations xs (t - 1))) = (2 * t - 1 choose (t - 1))"
    using len t by (simp add: length_combinations)
  have "enumerate_until (Some (int (2 * t - 1 choose (t - 1)))) 1 (combinations (x # xs) t)
          = take (2 * t - 1 choose (t - 1)) (combinations (x # xs) t)"
    using enumerate_until_take[OF one] by simp
  also have "\<dots> = map ((#) x) (combinations xs (t - 1))"
    unfolding c using l by simp
  finally show ?thesis unfolding h' paired_combinations_def by simp
qed

lemma paired_combinations_odd:
  assumes "odd s"
  shows "paired_combinations numbers m (halfbinom (int s) (int s div 2))
     = map (\<lambda>numbers1. (numbers1, filtering numbers numbers1)) (combinations numbers m)"
proof -
  from assms have "int s mod 2 = 1" by presburger
  then have "halfbinom (int s) (int s div 2) = None" by (simp add: halfbinom_def)
  then show ?thesis by (simp add: paired_combinations_None)
qed

lemma combination_of_mset:
  assumes "M \<subseteq># mset xs"
  shows "\<exists>ys. ys \<in> set (combinations xs (size M)) \<and> mset ys = M"
proof -
  from mset_subset_subseq[OF assms] obtain ys where ys: "subseq ys xs" "mset ys = M" by blast
  from ys(2) have "length ys = size M" using size_mset[of ys] by simp
  with ys(1) have "ys \<in> set (combinations xs (size M))" by (simp add: in_set_combinations)
  with ys(2) show ?thesis by (intro exI[of _ ys] conjI)
qed

lemma candidates_large:
  assumes "m0 < m" and "m < s" and "n1 \<in> set (combinations numbers m)"
  shows "(n1, filtering numbers n1)
           \<in> set (concat (map (\<lambda>m. paired_combinations numbers m None) [Suc m0..<s]))"
proof -
  from assms(1,2) have "m \<in> set [Suc m0..<s]" by simp
  moreover from assms(3) have "(n1, filtering numbers n1) \<in> set (paired_combinations numbers m None)"
    unfolding paired_combinations_None by simp
  ultimately show ?thesis unfolding set_concat by (intro UN_I[of "paired_combinations numbers m None"]) simp_all
qed

lemma candidates_cover_side:
  assumes len: "2 \<le> length numbers"
    and sub: "M \<subseteq># mset numbers"
    and lt: "size M < length numbers"
    and big: "length numbers < 2 * size M \<or> (length numbers = 2 * size M \<and> hd numbers \<in># M)"
    and c: "all_paired_combinations numbers
              (zip_longest [(length numbers + 1) div 2..<length numbers]
                 [halfbinom (int (length numbers)) (int (length numbers) div 2)]) = Inr cands"
  shows "\<exists>n1. (n1, filtering numbers n1) \<in> set cands \<and> subseq n1 numbers \<and> mset n1 = M"
proof -
  let ?s = "length numbers"
  let ?m0 = "(?s + 1) div 2"
  let ?h = "halfbinom (int ?s) (int ?s div 2)"
  let ?first = "paired_combinations numbers ?m0 ?h"
  let ?rest = "concat (map (\<lambda>m. paired_combinations numbers m None) [Suc ?m0..<?s])"
  from c candidates_eq[OF len, of ?h] have cands: "cands = ?first @ ?rest" by simp
  show ?thesis
  proof (cases "?s < 2 * size M")
    case True
    from combination_of_mset[OF sub] obtain n1 where
      n1: "n1 \<in> set (combinations numbers (size M))" "mset n1 = M" by blast
    then have s1: "subseq n1 numbers" by (simp add: in_set_combinations)
    have ge: "?m0 \<le> size M" using True by arith
    have "(n1, filtering numbers n1) \<in> set cands"
    proof (cases "size M = ?m0")
      case e: True
      have "odd ?s"
      proof (rule ccontr)
        assume "\<not> odd ?s"
        then have "2 * ?m0 = ?s" by presburger
        with True e show False by simp
      qed
      from paired_combinations_odd[OF this, of numbers ?m0] n1(1)
      have "(n1, filtering numbers n1) \<in> set ?first" unfolding e by simp
      then show ?thesis unfolding cands by simp
    next
      case False
      with ge have "?m0 < size M" by simp
      from candidates_large[OF this lt n1(1)]
      show ?thesis unfolding cands by simp
    qed
    with s1 n1(2) show ?thesis by (intro exI[of _ n1] conjI)
  next
    case False
    with big have e: "?s = 2 * size M" and hd: "hd numbers \<in># M" by simp_all
    from len obtain x xs where nx: "numbers = x # xs" by (cases numbers) auto
    have pos: "0 < size M" using e len by simp
    from hd nx have xM: "x \<in># M" by simp
    have sub': "M - {#x#} \<subseteq># mset xs"
      using sub unfolding nx subset_eq_diff_conv by simp
    have sz: "size (M - {#x#}) = size M - 1" using xM by (simp add: size_Diff_singleton)
    from combination_of_mset[OF sub'] obtain ys where
      ys: "ys \<in> set (combinations xs (size M - 1))" "mset ys = M - {#x#}" unfolding sz by blast
    have m: "mset (x # ys) = M" using ys(2) xM by simp
    from ys(1) have "subseq ys xs" by (simp add: in_set_combinations)
    then have s1: "subseq (x # ys) numbers" unfolding nx by simp
    have m0: "?m0 = size M" using e by simp
    have l: "length (x # xs) = 2 * size M" using e nx by simp
    have hh: "?h = halfbinom (int (2 * size M)) (int (2 * size M) div 2)"
      using e by (simp only:)
    have first: "?first = paired_combinations numbers (size M)
                            (halfbinom (int (2 * size M)) (int (2 * size M) div 2))"
      unfolding m0 hh ..
    have "(x # ys, filtering (x # xs) (x # ys))
            \<in> set (paired_combinations (x # xs) (size M) (halfbinom (int (2 * size M)) (int (2 * size M) div 2)))"
      unfolding paired_combinations_half[OF pos l] using ys(1) by (simp del: filtering.simps)
    then have "(x # ys, filtering numbers (x # ys))
            \<in> set (paired_combinations numbers (size M)
                      (halfbinom (int (2 * size M)) (int (2 * size M) div 2)))"
      unfolding nx .
    then have "(x # ys, filtering numbers (x # ys)) \<in> set ?first"
      unfolding first .
    then have "(x # ys, filtering numbers (x # ys)) \<in> set cands" unfolding cands by simp
    with s1 m show ?thesis by (intro exI[of _ "x # ys"] conjI)
  qed
qed

lemma candidates_cover:
  assumes len: "2 \<le> length numbers"
    and split: "M1 + M2 = mset numbers" "M1 \<noteq> {#}" "M2 \<noteq> {#}"
    and c: "all_paired_combinations numbers
              (zip_longest [(length numbers + 1) div 2..<length numbers]
                 [halfbinom (int (length numbers)) (int (length numbers) div 2)]) = Inr cands"
  shows "\<exists>n1. (n1, filtering numbers n1) \<in> set cands \<and> subseq n1 numbers
            \<and> (mset n1 = M1 \<or> mset n1 = M2)"
proof -
  have sz: "size M1 + size M2 = length numbers"
    using arg_cong[OF split(1), of size] by simp
  have p1: "0 < size M1" and p2: "0 < size M2" using split(2,3) by (simp_all add: nonempty_has_size)
  have lt1: "size M1 < length numbers" and lt2: "size M2 < length numbers" using sz p1 p2 by arith+
  have sub1: "M1 \<subseteq># mset numbers" and sub2: "M2 \<subseteq># mset numbers"
    unfolding split(1)[symmetric] by simp_all
  from len have "numbers \<noteq> []" by auto
  then have "hd numbers \<in># mset numbers" by simp
  then have hd: "hd numbers \<in># M1 \<or> hd numbers \<in># M2" unfolding split(1)[symmetric] by simp
  have "(length numbers < 2 * size M1 \<or> (length numbers = 2 * size M1 \<and> hd numbers \<in># M1))
      \<or> (length numbers < 2 * size M2 \<or> (length numbers = 2 * size M2 \<and> hd numbers \<in># M2))"
    using sz hd by arith
  then show ?thesis
  proof
    assume "length numbers < 2 * size M1 \<or> (length numbers = 2 * size M1 \<and> hd numbers \<in># M1)"
    from candidates_cover_side[OF len sub1 lt1 this c] show ?thesis by blast
  next
    assume "length numbers < 2 * size M2 \<or> (length numbers = 2 * size M2 \<and> hd numbers \<in># M2)"
    from candidates_cover_side[OF len sub2 lt2 this c] show ?thesis by blast
  qed
qed

subsection \<open>Every group of the index holds every split\<close>

lemma unique_pairs_cover:
  assumes "unique_pairs idx U cands = Inr ps" and "(n1, n2) \<in> set cands" and "n1 \<notin> U"
  shows "\<exists>n2' A B. (n1, n2') \<in> set cands \<and> map_of idx n1 = Some A \<and> map_of idx n2' = Some B
            \<and> (A, B) \<in> set ps"
  using assms
proof (induction cands arbitrary: U ps)
  case Nil
  then show ?case by simp
next
  case (Cons c cands)
  obtain m1 m2 where c: "c = (m1, m2)" by (cases c)
  show ?case
  proof (cases "m1 \<in> U")
    case True
    with Cons.prems(1) c have u: "unique_pairs idx U cands = Inr ps" by simp
    from True Cons.prems(2,3) c have "(n1, n2) \<in> set cands" by auto
    from Cons.IH[OF u this Cons.prems(3)] obtain n2' A B where
      "(n1, n2') \<in> set cands" "map_of idx n1 = Some A" "map_of idx n2' = Some B"
      "(A, B) \<in> set ps" by blast
    then show ?thesis by (intro exI[of _ n2'] exI[of _ A] exI[of _ B]) simp
  next
    case False
    from Cons.prems(1) c False obtain A B ps' where
      l: "map_of idx m1 = Some A" "map_of idx m2 = Some B"
      and u: "unique_pairs idx (insert m1 U) cands = Inr ps'"
      and ps: "ps = (A, B) # ps'"
      by (auto simp: lookup_def split: option.splits sum.splits)
    show ?thesis
    proof (cases "n1 = m1")
      case True
      with l ps c show ?thesis by (intro exI[of _ m2] exI[of _ A] exI[of _ B]) simp
    next
      case neq: False
      with Cons.prems(2) c have mem: "(n1, n2) \<in> set cands" by auto
      from neq Cons.prems(3) have "n1 \<notin> insert m1 U" by simp
      from Cons.IH[OF u mem this] obtain n2' A' B' where
        "(n1, n2') \<in> set cands" "map_of idx n1 = Some A'" "map_of idx n2' = Some B'"
        "(A', B') \<in> set ps'" by blast
      then show ?thesis unfolding ps by (intro exI[of _ n2'] exI[of _ A'] exI[of _ B']) simp
    qed
  qed
qed

lemma unique_pairs_members:
  assumes "unique_pairs idx U cands = Inr ps" and "(A, B) \<in> set ps"
  shows "\<exists>n1 n2. (n1, n2) \<in> set cands \<and> map_of idx n1 = Some A \<and> map_of idx n2 = Some B"
  using assms
proof (induction cands arbitrary: U ps)
  case Nil
  then show ?case by simp
next
  case (Cons c cands)
  obtain m1 m2 where c: "c = (m1, m2)" by (cases c)
  show ?case
  proof (cases "m1 \<in> U")
    case True
    with Cons.prems(1) c have u: "unique_pairs idx U cands = Inr ps" by simp
    from Cons.IH[OF u Cons.prems(2)] obtain n1 n2 where
      "(n1, n2) \<in> set cands" "map_of idx n1 = Some A" "map_of idx n2 = Some B" by blast
    then show ?thesis by (intro exI[of _ n1] exI[of _ n2]) simp
  next
    case False
    from Cons.prems(1) c False obtain A' B' ps' where
      l: "map_of idx m1 = Some A'" "map_of idx m2 = Some B'"
      and u: "unique_pairs idx (insert m1 U) cands = Inr ps'"
      and ps: "ps = (A', B') # ps'"
      by (auto simp: lookup_def split: option.splits sum.splits)
    show ?thesis
    proof (cases "(A, B) = (A', B')")
      case True
      with l c show ?thesis by (intro exI[of _ m1] exI[of _ m2]) simp
    next
      case neq: False
      with Cons.prems(2) ps have "(A, B) \<in> set ps'" by auto
      from Cons.IH[OF u this] obtain n1 n2 where
        "(n1, n2) \<in> set cands" "map_of idx n1 = Some A" "map_of idx n2 = Some B" by blast
      then show ?thesis by (intro exI[of _ n1] exI[of _ n2]) simp
    qed
  qed
qed

lemma Group_init_Nil: "Group_init [] idx = Inl TypeError"
  by (simp add: Group_init_def partition_into_unique_pairs_def)

lemma Group_init_parts:
  assumes "2 \<le> length numbers" and "Group_init numbers idx = Inr g"
  shows "\<exists>cands parts. all_paired_combinations numbers
              (zip_longest [(length numbers + 1) div 2..<length numbers]
                 [halfbinom (int (length numbers)) (int (length numbers) div 2)]) = Inr cands
          \<and> unique_pairs idx {} cands = Inr parts
          \<and> g = Group numbers (length numbers) parts (perform_calculations numbers parts)"
proof -
  have ne1: "length numbers \<noteq> 1" using assms(1) by simp
  from assms(2) obtain parts where
    p: "partition_into_unique_pairs numbers idx = Inr parts"
    and g: "g = Group numbers (length numbers) parts (perform_calculations numbers parts)"
    by (auto simp: Group_init_def split: sum.splits)
  from p ne1 obtain cands where
    "all_paired_combinations numbers
              (zip_longest [(length numbers + 1) div 2..<length numbers]
                 [halfbinom (int (length numbers)) (int (length numbers) div 2)]) = Inr cands"
    "unique_pairs idx {} cands = Inr parts"
    by (auto simp: partition_into_unique_pairs_def Let_def split: sum.splits)
  with g show ?thesis by (intro exI[of _ cands] exI[of _ parts] conjI)
qed

lemma Group_init_full:
  assumes g: "Group_init numbers idx = Inr g" and full: "index_full idx"
  shows "group_numbers g = numbers \<and> full_group g"
proof -
  have ne: "numbers \<noteq> []" using g Group_init_Nil by auto
  show ?thesis
  proof (cases "length numbers = 1")
    case True
    then obtain n where n: "numbers = [n]" by (cases numbers) auto
    from g have "g = Group [n] 1 [] [singleton n]"
      unfolding n Group_init_single by simp
    then show ?thesis using full_group.single[of n] n by simp
  next
    case False
    moreover have "0 < length numbers" using ne by simp
    ultimately have len: "2 \<le> length numbers" by arith
    from Group_init_parts[OF len g] obtain cands parts where
      c: "all_paired_combinations numbers
              (zip_longest [(length numbers + 1) div 2..<length numbers]
                 [halfbinom (int (length numbers)) (int (length numbers) div 2)]) = Inr cands"
      and u: "unique_pairs idx {} cands = Inr parts"
      and geq: "g = Group numbers (length numbers) parts (perform_calculations numbers parts)"
      by blast
    have sides: "\<forall>(A, B) \<in> set parts. full_group A \<and> full_group B"
    proof (clarify)
      fix A B assume "(A, B) \<in> set parts"
      from unique_pairs_members[OF u this] obtain n1 n2 where
        "map_of idx n1 = Some A" "map_of idx n2 = Some B" by blast
      then have "(n1, A) \<in> set idx" "(n2, B) \<in> set idx" by (simp_all add: map_of_in_set)
      with full show "full_group A \<and> full_group B" unfolding index_full_def by auto
    qed
    have cover: "\<forall>M1 M2. M1 \<noteq> {#} \<and> M2 \<noteq> {#} \<and> M1 + M2 = mset numbers \<longrightarrow>
        (\<exists>(A, B) \<in> set parts.
            mset (group_numbers A) = M1 \<and> mset (group_numbers B) = M2
          \<or> mset (group_numbers A) = M2 \<and> mset (group_numbers B) = M1)"
    proof (intro allI impI)
      fix M1 M2 :: "int multiset"
      assume a: "M1 \<noteq> {#} \<and> M2 \<noteq> {#} \<and> M1 + M2 = mset numbers"
      then have s: "M1 + M2 = mset numbers" and n1: "M1 \<noteq> {#}" and n2: "M2 \<noteq> {#}" by simp_all
      from candidates_cover[OF len s n1 n2 c] obtain k1 where
        k: "(k1, filtering numbers k1) \<in> set cands" "subseq k1 numbers"
           "mset k1 = M1 \<or> mset k1 = M2" by blast
      have "k1 \<notin> {}" by simp
      from unique_pairs_cover[OF u k(1) this] obtain k2 A B where
        m: "(k1, k2) \<in> set cands" "map_of idx k1 = Some A" "map_of idx k2 = Some B"
           "(A, B) \<in> set parts" by blast
      from candidates_ok[OF len, of "halfbinom (int (length numbers)) (int (length numbers) div 2)"] c
      have "\<forall>(n1, n2) \<in> set cands. subseq n1 numbers \<and> n1 \<noteq> [] \<and> length n1 < length numbers
                 \<and> n2 = filtering numbers n1" by simp
      from bspec[OF this m(1)] have k2: "k2 = filtering numbers k1" by simp
      from m(2,3) have "(k1, A) \<in> set idx" "(k2, B) \<in> set idx" by (simp_all add: map_of_in_set)
      with full have gA: "group_numbers A = k1" and gB: "group_numbers B = k2"
        unfolding index_full_def by auto
      from mset_filtering[OF k(2)] have sum: "mset k2 + mset k1 = M1 + M2" unfolding k2 s .
      from k(3) have "mset (group_numbers A) = M1 \<and> mset (group_numbers B) = M2
          \<or> mset (group_numbers A) = M2 \<and> mset (group_numbers B) = M1"
      proof
        assume e: "mset k1 = M1"
        with sum have "mset k2 = M2" by simp
        with e show ?thesis unfolding gA gB by simp
      next
        assume e: "mset k1 = M2"
        with sum have "mset k2 = M1" by (simp add: add.commute)
        with e show ?thesis unfolding gA gB by simp
      qed
      with m(4) show "\<exists>(A, B) \<in> set parts.
            mset (group_numbers A) = M1 \<and> mset (group_numbers B) = M2
          \<or> mset (group_numbers A) = M2 \<and> mset (group_numbers B) = M1"
        by (intro bexI[of _ "(A, B)"]) simp_all
    qed
    from full_group.split[OF len sides cover] geq show ?thesis by simp
  qed
qed

lemma add_groups_full:
  assumes "add_groups idx block = Inr idx'" and "index_full idx"
  shows "index_full idx'"
  using assms
proof (induction block arbitrary: idx)
  case Nil
  then show ?case by simp
next
  case (Cons x block)
  show ?case
  proof (cases "x \<in> fst ` set idx")
    case True
    with Cons.prems(1) have "add_groups idx block = Inr idx'" by simp
    from Cons.IH[OF this Cons.prems(2)] show ?thesis .
  next
    case False
    with Cons.prems(1) obtain g where g: "Group_init x idx = Inr g"
      and a: "add_groups (idx @ [(x, g)]) block = Inr idx'"
      by (auto split: sum.splits)
    from Group_init_full[OF g Cons.prems(2)] Cons.prems(2)
    have "index_full (idx @ [(x, g)])" unfolding index_full_def by simp
    from Cons.IH[OF a this] show ?thesis .
  qed
qed

lemma unique_groups_full: "unique_groups xs = Inr idx \<Longrightarrow> index_full idx"
proof -
  assume "unique_groups xs = Inr idx"
  then have "add_groups [] (concat (map (combinations xs) [1..<length xs + 1])) = Inr idx"
    unfolding unique_groups_def .
  moreover have "index_full []" by (simp add: index_full_def)
  ultimately show "index_full idx" by (rule add_groups_full)
qed

subsection \<open>The result values of groups of equal content\<close>

lemma in_perform_calculationsI:
  assumes "length ns \<noteq> 1" and "(A, B) \<in> set parts" and "calc1 \<in> set (calculations A)"
    and "calc2 \<in> set (calculations B)" and "c \<in> set (generate calc1 calc2)"
  shows "c \<in> set (perform_calculations ns parts)"
proof -
  from assms(3,4) have "(calc1, calc2) \<in> set (List.product (calculations A) (calculations B))"
    by simp
  with assms(5) have "c \<in> set (concat (map (\<lambda>(calc1, calc2). generate calc1 calc2)
                                  (List.product (calculations A) (calculations B))))"
    unfolding set_concat by (intro UN_I[of "generate calc1 calc2"]) force+
  with assms(2) have "c \<in> set (concat (map (\<lambda>(group1, group2).
                      concat (map (\<lambda>(calc1, calc2). generate calc1 calc2)
                                  (List.product (calculations group1) (calculations group2))))
                   parts))"
    unfolding set_concat
    by (intro UN_I[of "concat (map (\<lambda>(calc1, calc2). generate calc1 calc2)
                                  (List.product (calculations A) (calculations B)))"]) force+
  with assms(1) show ?thesis by (simp add: perform_calculations_def)
qed

lemma generate_result_transfer:
  assumes "max (result a') (result b') = max (result a) (result b)"
    and "min (result a') (result b') = min (result a) (result b)"
    and "c \<in> set (generate a b)"
  shows "\<exists>c'. c' \<in> set (generate a' b') \<and> result c' = result c"
proof -
  from assms(3) have "result c \<in> set (map result (generate a b))" by simp
  then have "result c \<in> set (map result (generate a' b'))"
    unfolding generate_results assms(1,2) .
  then show ?thesis by auto
qed

lemma results_subset:
  assumes "wf_group g"
  shows "\<forall>g'. full_group g' \<and> mset (group_numbers g') = mset (group_numbers g) \<longrightarrow>
           result ` set (calculations g) \<subseteq> result ` set (calculations g')"
  using assms
proof (induction rule: wf_group.induct)
  case (single n)
  show ?case
  proof (intro allI impI)
    fix g' assume a: "full_group g' \<and> mset (group_numbers g') = mset (group_numbers (Group [n] 1 [] [singleton n]))"
    then have f: "full_group g'" and ms: "mset (group_numbers g') = {#n#}" by simp_all
    from f show "result ` set (calculations (Group [n] 1 [] [singleton n])) \<subseteq> result ` set (calculations g')"
    proof (cases rule: full_group.cases)
      case (single m)
      with ms show ?thesis by simp
    next
      case (split ns' parts')
      from ms have "size (mset (group_numbers g')) = 1" by simp
      with split(1,2) show ?thesis by simp
    qed
  qed
next
  case (split ns parts)
  note len = split.hyps(1) and IH = split.IH
  have ne1: "length ns \<noteq> 1" using len by simp
  show ?case
  proof (intro allI impI subsetI)
    fix g' r
    assume a: "full_group g' \<and> mset (group_numbers g')
                 = mset (group_numbers (Group ns (length ns) parts (perform_calculations ns parts)))"
      and r: "r \<in> result ` set (calculations (Group ns (length ns) parts (perform_calculations ns parts)))"
    from a have f: "full_group g'" and ms: "mset (group_numbers g') = mset ns" by simp_all
    from r obtain c where c: "c \<in> set (perform_calculations ns parts)" and rc: "r = result c" by auto
    from in_perform_calculations[OF ne1 c] obtain A B calc1 calc2 where
      m: "(A, B) \<in> set parts" "calc1 \<in> set (calculations A)" "calc2 \<in> set (calculations B)"
         "c \<in> set (generate calc1 calc2)" by blast
    from bspec[OF IH m(1)] have
      ihA: "\<forall>g'. full_group g' \<and> mset (group_numbers g') = mset (group_numbers A) \<longrightarrow>
              result ` set (calculations A) \<subseteq> result ` set (calculations g')"
      and ihB: "\<forall>g'. full_group g' \<and> mset (group_numbers g') = mset (group_numbers B) \<longrightarrow>
              result ` set (calculations B) \<subseteq> result ` set (calculations g')"
      and sA: "subseq (group_numbers A) ns"
      and neA: "group_numbers A \<noteq> []"
      and ltA: "length (group_numbers A) < length ns"
      and nB: "group_numbers B = filtering ns (group_numbers A)"
      unfolding prod.case by simp_all
    from mset_filtering[OF sA] have sum: "mset (group_numbers A) + mset (group_numbers B) = mset ns"
      unfolding nB by (simp add: add.commute)
    from length_filtering[OF sA] ltA have "0 < length (group_numbers B)" unfolding nB by arith
    then have neB: "group_numbers B \<noteq> []" by simp
    from f show "r \<in> result ` set (calculations g')"
    proof (cases rule: full_group.cases)
      case (single m)
      from ms have "size (mset (group_numbers g')) = length ns" by simp
      with single len show ?thesis by simp
    next
      case (split ns' parts')
      note g' = split(1) and len' = split(2) and sides = split(3) and cover = split(4)
      from ms have ms': "mset ns' = mset ns" unfolding g' by simp
      have pre: "mset (group_numbers A) \<noteq> {#} \<and> mset (group_numbers B) \<noteq> {#}
            \<and> mset (group_numbers A) + mset (group_numbers B) = mset ns'"
        using neA neB sum ms' by simp
      have "\<exists>(A', B') \<in> set parts'.
            mset (group_numbers A') = mset (group_numbers A) \<and> mset (group_numbers B') = mset (group_numbers B)
          \<or> mset (group_numbers A') = mset (group_numbers B) \<and> mset (group_numbers B') = mset (group_numbers A)"
        by (rule cover[rule_format, of "mset (group_numbers A)" "mset (group_numbers B)"]) (rule pre)
      then obtain A' B' where m': "(A', B') \<in> set parts'"
        and d: "mset (group_numbers A') = mset (group_numbers A) \<and> mset (group_numbers B') = mset (group_numbers B)
          \<or> mset (group_numbers A') = mset (group_numbers B) \<and> mset (group_numbers B') = mset (group_numbers A)"
        by auto
      from bspec[OF sides m'] have fA: "full_group A'" and fB: "full_group B'"
        unfolding prod.case by simp_all
      have "\<exists>c1' c2'. c1' \<in> set (calculations A') \<and> c2' \<in> set (calculations B')
              \<and> max (result c1') (result c2') = max (result calc1) (result calc2)
              \<and> min (result c1') (result c2') = min (result calc1) (result calc2)"
        using d
      proof
        assume e: "mset (group_numbers A') = mset (group_numbers A) \<and> mset (group_numbers B') = mset (group_numbers B)"
        from ihA fA e have "result ` set (calculations A) \<subseteq> result ` set (calculations A')" by simp
        with m(2) obtain c1' where c1: "c1' \<in> set (calculations A')" "result c1' = result calc1" by auto
        from ihB fB e have "result ` set (calculations B) \<subseteq> result ` set (calculations B')" by simp
        with m(3) obtain c2' where c2: "c2' \<in> set (calculations B')" "result c2' = result calc2" by auto
        from c1 c2 show ?thesis by (intro exI[of _ c1'] exI[of _ c2']) simp
      next
        assume e: "mset (group_numbers A') = mset (group_numbers B) \<and> mset (group_numbers B') = mset (group_numbers A)"
        from ihB fA e have "result ` set (calculations B) \<subseteq> result ` set (calculations A')" by simp
        with m(3) obtain c1' where c1: "c1' \<in> set (calculations A')" "result c1' = result calc2" by auto
        from ihA fB e have "result ` set (calculations A) \<subseteq> result ` set (calculations B')" by simp
        with m(2) obtain c2' where c2: "c2' \<in> set (calculations B')" "result c2' = result calc1" by auto
        from c1 c2 show ?thesis
          by (intro exI[of _ c1'] exI[of _ c2']) (simp add: max.commute min.commute)
      qed
      then obtain c1' c2' where cc: "c1' \<in> set (calculations A')" "c2' \<in> set (calculations B')"
        "max (result c1') (result c2') = max (result calc1) (result calc2)"
        "min (result c1') (result c2') = min (result calc1) (result calc2)" by blast
      from generate_result_transfer[OF cc(3,4) m(4)] obtain c' where
        c': "c' \<in> set (generate c1' c2')" "result c' = result c" by blast
      have "length ns' \<noteq> 1" using len' by simp
      from in_perform_calculationsI[OF this m' cc(1,2) c'(1)]
      have "c' \<in> set (calculations g')" unfolding g' by simp
      then have "result c' \<in> result ` set (calculations g')" by (rule imageI)
      then show ?thesis unfolding c'(2) rc .
    qed
  qed
qed

lemma index_results_subset:
  assumes p: "unique_groups p = Inr idx" and q: "unique_groups q = Inr idx'"
    and pq: "mset p = mset q"
  shows "(\<forall>(k, g) \<in> set idx. \<forall>(k', g') \<in> set idx'. mset k = mset k' \<longrightarrow>
             result ` set (calculations g) \<subseteq> result ` set (calculations g'))
       \<and> mset ` fst ` set idx \<subseteq> mset ` fst ` set idx'
       \<and> result ` set (walk idx) \<subseteq> result ` set (walk idx')"
proof -
  from unique_groups_ok[of p] p have ok: "index_ok idx"
    and keys: "fst ` set idx = {ys. subseq ys p \<and> ys \<noteq> []}" by simp_all
  from unique_groups_ok[of q] q have ok': "index_ok idx'"
    and keys': "fst ` set idx' = {ys. subseq ys q \<and> ys \<noteq> []}" by simp_all
  from unique_groups_full[OF q] have full': "index_full idx'" .
  have grp: "\<forall>(k, g) \<in> set idx. \<forall>(k', g') \<in> set idx'. mset k = mset k' \<longrightarrow>
             result ` set (calculations g) \<subseteq> result ` set (calculations g')"
  proof (intro ballI, clarify)
    fix k g k' g' r
    assume kg: "(k, g) \<in> set idx" and kg': "(k', g') \<in> set idx'" and e: "mset k = mset k'"
      and r: "r \<in> set (calculations g)"
    from index_ok_group[OF ok kg] have g: "group_numbers g = k" "wf_group g" by simp_all
    from full' kg' have g': "group_numbers g' = k'" "full_group g'" unfolding index_full_def by auto
    from results_subset[OF g(2)] g' g(1) e
    have "result ` set (calculations g) \<subseteq> result ` set (calculations g')" by simp
    with r show "result r \<in> result ` set (calculations g')" by blast
  qed
  have key: "\<And>k. k \<in> fst ` set idx \<Longrightarrow> \<exists>k'. k' \<in> fst ` set idx' \<and> mset k' = mset k"
  proof -
    fix k assume "k \<in> fst ` set idx"
    then have k: "subseq k p" "k \<noteq> []" unfolding keys by simp_all
    from subseq_mset_subset[OF k(1)] have "mset k \<subseteq># mset q" unfolding pq .
    from mset_subset_subseq[OF this] obtain k' where k': "subseq k' q" "mset k' = mset k" by blast
    from k'(2) k(2) have "k' \<noteq> []" by auto
    with k'(1) have "k' \<in> fst ` set idx'" unfolding keys' by simp
    with k'(2) show "\<exists>k'. k' \<in> fst ` set idx' \<and> mset k' = mset k" by (intro exI[of _ k'] conjI)
  qed
  have ks: "mset ` fst ` set idx \<subseteq> mset ` fst ` set idx'"
  proof
    fix M assume "M \<in> mset ` fst ` set idx"
    then obtain k where k: "k \<in> fst ` set idx" "M = mset k" by auto
    from key[OF k(1)] obtain k' where k': "k' \<in> fst ` set idx'" "mset k' = mset k" by blast
    from k'(1) have "mset k' \<in> mset ` fst ` set idx'" by (rule imageI)
    then show "M \<in> mset ` fst ` set idx'" unfolding k(2) k'(2) .
  qed
  have w: "result ` set (walk idx) \<subseteq> result ` set (walk idx')"
  proof
    fix r assume "r \<in> result ` set (walk idx)"
    then obtain k g c where kg: "(k, g) \<in> set idx" and c: "c \<in> set (calculations g)" "r = result c"
      by (auto simp: walk_def)
    from kg have "k \<in> fst ` set idx" by force
    from key[OF this] obtain k' where k': "k' \<in> fst ` set idx'" "mset k' = mset k" by blast
    then obtain g' where kg': "(k', g') \<in> set idx'" by auto
    from bspec[OF grp kg] have "\<forall>(k', g') \<in> set idx'. mset k = mset k' \<longrightarrow>
             result ` set (calculations g) \<subseteq> result ` set (calculations g')"
      unfolding prod.case .
    from bspec[OF this kg'] k'(2)
    have "result ` set (calculations g) \<subseteq> result ` set (calculations g')" unfolding prod.case by simp
    with c obtain c' where c': "c' \<in> set (calculations g')" "result c' = r" by auto
    from kg' c'(1) have "c' \<in> set (walk idx')" unfolding walk_def by force
    with c'(2) show "r \<in> result ` set (walk idx')" by force
  qed
  from grp ks w show ?thesis by (intro conjI)
qed

lemma fold_min_Min: "fold min ds (a :: int) = Min (insert a (set ds))"
  using Min.set_eq_fold[of a ds] by simp

lemma search_values:
  assumes "result ` set a = result ` set b"
  shows "fst (search target a) = fst (search target b)
       \<and> result ` set (snd (search target a)) = result ` set (snd (search target b))"
proof -
  let ?d = "\<lambda>r. \<bar>r - target\<bar>"
  have img: "\<And>cs. set (map (\<lambda>c. \<bar>result c - target\<bar>) cs) = ?d ` result ` set cs"
    by (simp add: image_image)
  have m: "fold min (map (\<lambda>c. \<bar>result c - target\<bar>) a) target
         = fold min (map (\<lambda>c. \<bar>result c - target\<bar>) b) target"
    unfolding fold_min_Min img assms ..
  have f: "\<And>cs D. result ` set (filter (\<lambda>c. \<bar>result c - target\<bar> = D) cs)
                  = {r \<in> result ` set cs. \<bar>r - target\<bar> = D}"
    by auto
  show ?thesis unfolding search_result fst_conv snd_conv f m assms by simp
qed

text \<open>
  Claim C6, amended. For every tuple of integers and every permutation of it, the subset
  index is built from either without error, and the order of the numbers does not affect
  which result values are produced: the two indexes hold the same value contents as keys,
  groups of equal content have the same set of results, the two walks yield the same set
  of results, and the search finds the same smallest difference and the same winning
  values. A full solve, which sorts the numbers descending first, returns the same
  Calculations in the same order for both. (What the order of the numbers given to the
  index can change is the text of a Calculation, as shown above, and how often it is
  yielded.)
\<close>

theorem results_permutation_invariant:
  assumes "mset p = mset q"
  shows "\<exists>idx idx'. unique_groups p = Inr idx \<and> unique_groups q = Inr idx'
      \<and> (\<forall>(k, g) \<in> set idx. \<forall>(k', g') \<in> set idx'. mset k = mset k' \<longrightarrow>
             result ` set (calculations g) = result ` set (calculations g'))
      \<and> mset ` fst ` set idx = mset ` fst ` set idx'
      \<and> result ` set (walk idx) = result ` set (walk idx')
      \<and> fst (search target (walk idx)) = fst (search target (walk idx'))
      \<and> result ` set (snd (search target (walk idx))) = result ` set (snd (search target (walk idx')))
      \<and> countdown_solver target p = countdown_solver target q"
proof -
  from unique_groups_ok[of p] obtain idx where p: "unique_groups p = Inr idx" by blast
  from unique_groups_ok[of q] obtain idx' where q: "unique_groups q = Inr idx'" by blast
  note a = index_results_subset[OF p q assms]
  note b = index_results_subset[OF q p assms[symmetric]]
  from a have a1: "\<forall>(k, g) \<in> set idx. \<forall>(k', g') \<in> set idx'. mset k = mset k' \<longrightarrow>
             result ` set (calculations g) \<subseteq> result ` set (calculations g')" by (rule conjunct1)
  from b have b1: "\<forall>(k', g') \<in> set idx'. \<forall>(k, g) \<in> set idx. mset k' = mset k \<longrightarrow>
             result ` set (calculations g') \<subseteq> result ` set (calculations g)" by (rule conjunct1)
  have grp: "\<forall>(k, g) \<in> set idx. \<forall>(k', g') \<in> set idx'. mset k = mset k' \<longrightarrow>
             result ` set (calculations g) = result ` set (calculations g')"
  proof (intro ballI, clarify)
    fix k g k' g'
    assume kg: "(k, g) \<in> set idx" and kg': "(k', g') \<in> set idx'" and e: "mset k = mset k'"
    from bspec[OF a1 kg] have "\<forall>(k', g') \<in> set idx'. mset k = mset k' \<longrightarrow>
             result ` set (calculations g) \<subseteq> result ` set (calculations g')"
      unfolding prod.case .
    from bspec[OF this kg'] e
    have l: "result ` set (calculations g) \<subseteq> result ` set (calculations g')"
      unfolding prod.case by simp
    from bspec[OF b1 kg'] have "\<forall>(k, g) \<in> set idx. mset k' = mset k \<longrightarrow>
             result ` set (calculations g') \<subseteq> result ` set (calculations g)"
      unfolding prod.case .
    from bspec[OF this kg] e
    have r: "result ` set (calculations g') \<subseteq> result ` set (calculations g)"
      unfolding prod.case by simp
    from l r show "result ` set (calculations g) = result ` set (calculations g')"
      by (rule equalityI)
  qed
  from a have a2: "mset ` fst ` set idx \<subseteq> mset ` fst ` set idx'"
    by (rule conjunct1[OF conjunct2])
  from b have b2: "mset ` fst ` set idx' \<subseteq> mset ` fst ` set idx"
    by (rule conjunct1[OF conjunct2])
  from a have a3: "result ` set (walk idx) \<subseteq> result ` set (walk idx')"
    by (rule conjunct2[OF conjunct2])
  from b have b3: "result ` set (walk idx') \<subseteq> result ` set (walk idx)"
    by (rule conjunct2[OF conjunct2])
  from a2 b2 have ks: "mset ` fst ` set idx = mset ` fst ` set idx'" by (rule equalityI)
  from a3 b3 have w: "result ` set (walk idx) = result ` set (walk idx')" by (rule equalityI)
  note s = search_values[OF w, of target]
  from s have s1: "fst (search target (walk idx)) = fst (search target (walk idx'))"
    by (rule conjunct1)
  from s have s2: "result ` set (snd (search target (walk idx)))
                 = result ` set (snd (search target (walk idx')))"
    by (rule conjunct2)
  have c: "countdown_solver target p = countdown_solver target q"
    using sort_cong[OF assms] by (simp add: countdown_solver_def)
  from p q grp ks w s1 s2 c show ?thesis by (intro exI[of _ idx] exI[of _ idx'] conjI)
qed

lemma results_2_2_3_1:
  "map_sum id (\<lambda>idx. sort (remdups (map result (walk idx)))) (unique_groups [2, 2, 3, 1])
     = Inr [1, 2, 3, 4, 5, 6, 7, 8, 9, 10, 11, 12, 13, 14, 15, 16, 18]"
  by code_simp

theorem results_permutation_invariant_witness:
  "\<exists>idx idx'. unique_groups [2, 2, 3, 1] = Inr idx \<and> unique_groups [3, 2, 2, 1] = Inr idx'
      \<and> result ` set (walk idx) = {1, 2, 3, 4, 5, 6, 7, 8, 9, 10, 11, 12, 13, 14, 15, 16, 18}
      \<and> result ` set (walk idx') = {1, 2, 3, 4, 5, 6, 7, 8, 9, 10, 11, 12, 13, 14, 15, 16, 18}
      \<and> fst (search 13 (walk idx)) = fst (search 13 (walk idx'))
      \<and> countdown_solver 13 [2, 2, 3, 1] = countdown_solver 13 [3, 2, 2, 1]"
proof -
  have "mset [2, 2, 3, 1] = mset [3, 2, 2, 1 :: int]" by simp
  from results_permutation_invariant[OF this, of 13] obtain idx idx' where
    h: "unique_groups [2, 2, 3, 1] = Inr idx \<and> unique_groups [3, 2, 2, 1] = Inr idx'
      \<and> (\<forall>(k, g) \<in> set idx. \<forall>(k', g') \<in> set idx'. mset k = mset k' \<longrightarrow>
             result ` set (calculations g) = result ` set (calculations g'))
      \<and> mset ` fst ` set idx = mset ` fst ` set idx'
      \<and> result ` set (walk idx) = result ` set (walk idx')
      \<and> fst (search 13 (walk idx)) = fst (search 13 (walk idx'))
      \<and> result ` set (snd (search 13 (walk idx))) = result ` set (snd (search 13 (walk idx')))
      \<and> countdown_solver 13 [2, 2, 3, 1] = countdown_solver 13 [3, 2, 2, 1]"
    by (elim exE)
  from h have i: "unique_groups [2, 2, 3, 1] = Inr idx" by (rule conjunct1)
  note h2 = conjunct2[OF h]
  from h2 have i': "unique_groups [3, 2, 2, 1] = Inr idx'" by (rule conjunct1)
  note h5 = conjunct2[OF conjunct2[OF conjunct2[OF h2]]]
  from h5 have w: "result ` set (walk idx) = result ` set (walk idx')" by (rule conjunct1)
  note h6 = conjunct2[OF h5]
  from h6 have s: "fst (search 13 (walk idx)) = fst (search 13 (walk idx'))" by (rule conjunct1)
  from h6 have c: "countdown_solver 13 [2, 2, 3, 1] = countdown_solver 13 [3, 2, 2, 1]"
    by (rule conjunct2[OF conjunct2])
  from results_2_2_3_1 have "sort (remdups (map result (walk idx)))
       = [1, 2, 3, 4, 5, 6, 7, 8, 9, 10, 11, 12, 13, 14, 15, 16, 18]"
    unfolding i by simp
  then have "set (sort (remdups (map result (walk idx))))
       = set [1, 2, 3, 4, 5, 6, 7, 8, 9, 10, 11, 12, 13, 14, 15, 16, 18]" by (rule arg_cong)
  then have v: "result ` set (walk idx)
       = {1, 2, 3, 4, 5, 6, 7, 8, 9, 10, 11, 12, 13, 14, 15, 16, 18}" by simp
  from v have v': "result ` set (walk idx')
       = {1, 2, 3, 4, 5, 6, 7, 8, 9, 10, 11, 12, 13, 14, 15, 16, 18}" unfolding w .
  from i i' v v' s c show ?thesis by (intro exI[of _ idx] exI[of _ idx'] conjI)
qed

end
